theory Spec2Isabelle
  imports Main "HOL-Library.Sublist"
begin

section \<open>The text post-filter \<open>remove_file_references\<close>\<close>

text \<open>
  The filter of \<^verbatim>\<open>agent_dev.py\<close> applies fifteen \<^verbatim>\<open>re.sub\<close> calls with
  \<^verbatim>\<open>flags=re.IGNORECASE\<close>, one \<^verbatim>\<open>re.sub\<close> that collapses blank lines, and
  \<^verbatim>\<open>str.strip\<close>. Python's \<^verbatim>\<open>re\<close> is a backtracking matcher: alternatives are
  tried left to right, a greedy repetition tries the longest run first, a lazy one the
  shortest first. The model returns, for a pattern and a text, the list of remainders
  of the text after every way of matching a prefix, in that order of preference; the
  head of the list is the match Python reports.

  A Python string is a list of code points, each a natural number (\<open>pystr\<close>); \<open>py\<close>
  reads a literal of this file as such a string. The character classes below are
  Python's classes for \<^verbatim>\<open>str\<close> patterns, over all code points. The table of
  \<^verbatim>\<open>str.isalnum\<close> from code point 256 on belongs to the Unicode data of the interpreter
  and is a parameter, \<open>alnum\<close>, of everything that uses \<^verbatim>\<open>\w\<close>.
\<close>

subsection \<open>Strings and character classes\<close>

type_synonym pystr = "nat list"

definition py :: "string \<Rightarrow> pystr" where
  "py s = map of_char s"

definition nl :: nat where
  "nl = 10"

text \<open>\<^verbatim>\<open>\s\<close> and the characters removed by \<^verbatim>\<open>str.strip()\<close>: those with \<^verbatim>\<open>str.isspace\<close>.\<close>

definition is_space :: "nat \<Rightarrow> bool" where
  "is_space c =
     (c \<in> {9, 10, 11, 12, 13, 28, 29, 30, 31, 32, 133, 160, 5760, 8232, 8233, 8239, 8287, 12288}
      \<or> (8192 \<le> c \<and> c \<le> 8202))"

text \<open>\<^verbatim>\<open>str.isalnum\<close> below code point 256.\<close>

definition alnum_latin1 :: "nat \<Rightarrow> bool" where
  "alnum_latin1 n =
     ((48 \<le> n \<and> n \<le> 57) \<or> (65 \<le> n \<and> n \<le> 90) \<or> (97 \<le> n \<and> n \<le> 122)
      \<or> n \<in> {170, 178, 179, 181, 185, 186, 188, 189, 190}
      \<or> (192 \<le> n \<and> n \<le> 214) \<or> (216 \<le> n \<and> n \<le> 246) \<or> (248 \<le> n \<and> n \<le> 255))"

text \<open>\<^verbatim>\<open>\w\<close>: the underscore and the characters with \<^verbatim>\<open>str.isalnum\<close>.\<close>

definition is_word :: "(nat \<Rightarrow> bool) \<Rightarrow> nat \<Rightarrow> bool" where
  "is_word alnum c = (c = 95 \<or> (if c < 256 then alnum_latin1 c else alnum c))"

text \<open>\<^verbatim>\<open>.\<close> without \<^verbatim>\<open>re.DOTALL\<close>: every character but the newline.\<close>

definition is_dot :: "nat \<Rightarrow> bool" where
  "is_dot c = (c \<noteq> nl)"

text \<open>
  The class \<^verbatim>\<open>[\w_\-\./]\<close> of the file-name part of every pattern. With
  \<^verbatim>\<open>re.IGNORECASE\<close> the two classes match the same characters as without.
\<close>

definition is_path :: "(nat \<Rightarrow> bool) \<Rightarrow> nat \<Rightarrow> bool" where
  "is_path alnum c = (is_word alnum c \<or> c = 95 \<or> c = 45 \<or> c = 46 \<or> c = 47)"

text \<open>
  Case folding for \<^verbatim>\<open>re.IGNORECASE\<close>. Every literal of the patterns is an ASCII
  character. A code point matches an ASCII literal without regard to case exactly when
  the two agree after folding: the ASCII capitals go to the small letters, the dotted
  capital I (U+0130) and the dotless small i (U+0131) to \<^verbatim>\<open>i\<close>, the long s (U+017F) to
  \<^verbatim>\<open>s\<close> and the Kelvin sign (U+212A) to \<^verbatim>\<open>k\<close>.
\<close>

definition ci_fold :: "nat \<Rightarrow> nat" where
  "ci_fold c =
     (if 65 \<le> c \<and> c \<le> 90 then c + 32
      else if c = 304 \<or> c = 305 then 105
      else if c = 383 then 115
      else if c = 8490 then 107
      else c)"

subsection \<open>Patterns and the backtracking matcher\<close>

datatype rx =
    Eps
  | Lit nat
  | Cls "nat \<Rightarrow> bool"
  | Seq rx rx
  | Alt rx rx
  | Star "nat \<Rightarrow> bool"
  | LazyStar "nat \<Rightarrow> bool"

text \<open>\<^verbatim>\<open>X*\<close> on a character class: the longest run first, then ever shorter ones.\<close>

fun star_greedy :: "(nat \<Rightarrow> bool) \<Rightarrow> pystr \<Rightarrow> pystr list" where
  "star_greedy p [] = [[]]"
| "star_greedy p (x # xs) = (if p x then star_greedy p xs @ [x # xs] else [x # xs])"

text \<open>\<^verbatim>\<open>X*?\<close> on a character class: the empty run first, then ever longer ones.\<close>

fun star_lazy :: "(nat \<Rightarrow> bool) \<Rightarrow> pystr \<Rightarrow> pystr list" where
  "star_lazy p [] = [[]]"
| "star_lazy p (x # xs) = (x # xs) # (if p x then star_lazy p xs else [])"

text \<open>
  \<open>rmatch ic r s\<close>: the remainders of \<open>s\<close> after each match of \<open>r\<close> at the start of
  \<open>s\<close>, most preferred first; \<open>ic\<close> is the flag \<^verbatim>\<open>re.IGNORECASE\<close>.
\<close>

fun rmatch :: "bool \<Rightarrow> rx \<Rightarrow> pystr \<Rightarrow> pystr list" where
  "rmatch ic Eps s = [s]"
| "rmatch ic (Lit c) s =
     (case s of
        [] \<Rightarrow> []
      | x # xs \<Rightarrow>
          if (if ic then ci_fold x = ci_fold c else x = c) then [xs] else [])"
| "rmatch ic (Cls p) s = (case s of [] \<Rightarrow> [] | x # xs \<Rightarrow> if p x then [xs] else [])"
| "rmatch ic (Seq a b) s = concat (map (rmatch ic b) (rmatch ic a s))"
| "rmatch ic (Alt a b) s = rmatch ic a s @ rmatch ic b s"
| "rmatch ic (Star p) s = star_greedy p s"
| "rmatch ic (LazyStar p) s = star_lazy p s"

text \<open>\<^verbatim>\<open>re.search\<close>: is there a match starting at some position of the text?\<close>

fun re_search :: "bool \<Rightarrow> rx \<Rightarrow> pystr \<Rightarrow> bool" where
  "re_search ic r [] = (rmatch ic r [] \<noteq> [])"
| "re_search ic r (c # cs) = (rmatch ic r (c # cs) \<noteq> [] \<or> re_search ic r cs)"

text \<open>
  \<^verbatim>\<open>re.sub(pattern, repl, text)\<close>: scan from the left; where the pattern matches, write
  the replacement and go on behind the match; elsewhere copy one character. None of the
  patterns of this file matches the empty string (lemma \<open>patterns_consuming\<close> below), so
  the rule of \<^verbatim>\<open>re.sub\<close> for empty matches is left out: a match that consumes nothing
  counts as no match.
\<close>

function re_sub :: "bool \<Rightarrow> rx \<Rightarrow> pystr \<Rightarrow> pystr \<Rightarrow> pystr" where
  "re_sub ic r rep [] = []"
| "re_sub ic r rep (c # cs) =
     (case rmatch ic r (c # cs) of
        [] \<Rightarrow> c # re_sub ic r rep cs
      | rest # _ \<Rightarrow>
          if length rest < length (c # cs) then rep @ re_sub ic r rep rest
          else c # re_sub ic r rep cs)"
  by pat_completeness auto
termination
  by (relation "measure (\<lambda>(ic, r, rep, s). length s)") auto

subsection \<open>The patterns of the source\<close>

definition lits :: "string \<Rightarrow> rx" where
  "lits s = foldr (\<lambda>c r. Seq (Lit (of_char c)) r) s Eps"

definition seqs :: "rx list \<Rightarrow> rx" where
  "seqs rs = foldr Seq rs Eps"

definition plus :: "(nat \<Rightarrow> bool) \<Rightarrow> rx" where
  "plus p = Seq (Cls p) (Star p)"

definition opt :: "rx \<Rightarrow> rx" where
  "opt r = Alt r Eps"

text \<open>\<^verbatim>\<open>[\w_\-\./]+\.\w+\<close>\<close>

definition file_name :: "(nat \<Rightarrow> bool) \<Rightarrow> rx" where
  "file_name alnum = seqs [plus (is_path alnum), lits ''.'', plus (is_word alnum)]"

text \<open>\<^verbatim>\<open>I(?:'ve| have)\<close> and \<^verbatim>\<open>I(?:'ll| will)\<close>\<close>

definition i_have :: rx where
  "i_have = Seq (lits ''I'') (Alt (lits [CHR 0x27, CHR ''v'', CHR ''e'']) (lits '' have''))"

definition i_will :: rx where
  "i_will = Seq (lits ''I'') (Alt (lits [CHR 0x27, CHR ''l'', CHR ''l'']) (lits '' will''))"

definition patterns :: "(nat \<Rightarrow> bool) \<Rightarrow> rx list" where
  "patterns alnum =
    [ seqs [i_have, lits '' saved'', LazyStar is_dot, lits ''to '', file_name alnum],
      seqs [i_will, lits '' save'', LazyStar is_dot, lits ''to '', file_name alnum],
      seqs [lits ''Let me save'', LazyStar is_dot, lits ''to '', file_name alnum],
      seqs [i_have, lits '' written'', LazyStar is_dot, lits ''to '', file_name alnum],
      seqs [lits ''Saved to '', file_name alnum],
      seqs [lits ''Writing to '', file_name alnum],
      seqs [i_will, lits '' write'', LazyStar is_dot, lits ''to '', file_name alnum],
      seqs [lits ''Saving'', LazyStar is_dot, lits ''to '', file_name alnum],
      seqs [lits ''Reading from '', file_name alnum],
      seqs [i_have, lits '' read'', LazyStar is_dot, lits ''from '', file_name alnum],
      seqs [lits ''Let me read'', LazyStar is_dot, lits ''from '', file_name alnum],
      seqs [lits ''The file '', file_name alnum, lits '' contains''],
      seqs [lits ''From '', file_name alnum, lits '':''],
      seqs [i_have, lits '' saved'', LazyStar is_dot, lits ''to /large_tool_results/'',
            plus (is_path alnum)],
      seqs [lits ''The '', opt (lits ''full ''), lits ''result'', opt (lits ''s''),
            lits '' '',
            Alt (lits ''were'') (Alt (lits ''was'') (lits ''has been'')),
            lits '' '', opt (lits ''automatically ''),
            lits ''saved to /large_tool_results/'', plus (is_path alnum)] ]"

text \<open>\<^verbatim>\<open>\n\s*\n\s*\n\<close>, compiled without flags.\<close>

definition blank_lines :: rx where
  "blank_lines = seqs [Lit nl, Star is_space, Lit nl, Star is_space, Lit nl]"

text \<open>\<^verbatim>\<open>str.strip()\<close>\<close>

definition py_strip :: "pystr \<Rightarrow> pystr" where
  "py_strip s = rev (dropWhile is_space (rev (dropWhile is_space s)))"

definition remove_file_references :: "(nat \<Rightarrow> bool) \<Rightarrow> pystr \<Rightarrow> pystr" where
  "remove_file_references alnum content =
     (if content = [] then content
      else
        let cleaned =
              foldl (\<lambda>cleaned pattern. re_sub True pattern [] cleaned) content (patterns alnum);
            cleaned = re_sub False blank_lines [nl, nl] cleaned
        in py_strip cleaned)"

text \<open>\<^verbatim>\<open>apply_format_template(content, state)\<close> returns \<^verbatim>\<open>content.strip()\<close>.\<close>

definition apply_format_template :: "pystr \<Rightarrow> pystr" where
  "apply_format_template content = py_strip content"


section \<open>Conversation state and the formatter node\<close>

text \<open>
  A LangChain message, as far as the source reads it: \<^verbatim>\<open>type\<close>, \<^verbatim>\<open>content\<close> (a string
  here), \<^verbatim>\<open>id\<close> (optional), \<^verbatim>\<open>tool_calls\<close> (of an assistant message) and
  \<^verbatim>\<open>tool_call_id\<close> (of a tool message). Type tags, identifiers, names and keys are
  strings the code only compares or passes on; they are of type \<^typ>\<open>string\<close>. The
  arguments of a tool call are of an arbitrary type \<open>'j\<close>; \<^verbatim>\<open>json.dumps\<close> is a parameter.
\<close>

record 'j tool_call =
  tc_id :: "string option"
  tc_name :: string
  tc_args :: 'j

record 'j message =
  msg_type :: string
  content :: pystr
  msg_id :: "string option"
  tool_calls :: "'j tool_call list"
  tool_call_id :: string

text \<open>Python values of the custom inputs and outputs and of the virtual file system.\<close>

datatype pyval = PyNone | PyStr string | PyDict "(string \<times> pyval) list"

text \<open>
  The state dictionary a node receives or returns: the key \<^verbatim>\<open>messages\<close>, and the key
  \<^verbatim>\<open>files\<close> when the node supplies it (\<open>None\<close>: the key is absent).
\<close>

record 'j node_data =
  messages :: "'j message list"
  files :: "pyval option"

text \<open>
  The loop over \<^verbatim>\<open>reversed(messages)\<close> that stops at the first message of type
  \<^verbatim>\<open>"ai"\<close>: the position of the last assistant message.
\<close>

fun last_ai_message :: "'j message list \<Rightarrow> nat option" where
  "last_ai_message [] = None"
| "last_ai_message (msg # msgs) =
     (case last_ai_message msgs of
        Some i \<Rightarrow> Some (Suc i)
      | None \<Rightarrow> if msg_type msg = ''ai'' then Some 0 else None)"

text \<open>
  \<^verbatim>\<open>format_final_response\<close> rewrites the content of that message in place and returns
  \<^verbatim>\<open>{"messages": messages}\<close>, a dictionary without the key \<^verbatim>\<open>files\<close>.
\<close>

definition format_final_response :: "(nat \<Rightarrow> bool) \<Rightarrow> 'j node_data \<Rightarrow> 'j node_data" where
  "format_final_response alnum state =
     (let msgs = messages state
      in case last_ai_message msgs of
           None \<Rightarrow> \<lparr>messages = msgs, files = None\<rparr>
         | Some i \<Rightarrow>
             if content (msgs ! i) \<noteq> [] then
               \<lparr>messages =
                  msgs[i := (msgs ! i)\<lparr>content :=
                    apply_format_template (remove_file_references alnum (content (msgs ! i)))\<rparr>],
                files = None\<rparr>
             else \<lparr>messages = msgs, files = None\<rparr>)"

section \<open>The tool assembler \<open>build_domain_tools\<close>\<close>

text \<open>The exceptions that end a call in this file.\<close>

datatype py_error = IndexError | ValueError | ValidationError

record served_sub_agent =
  ssa_endpoint_name :: string
  ssa_name :: string
  ssa_task :: string
  ssa_description :: string

record genie =
  genie_space_id :: string
  genie_name :: string
  genie_task :: string
  genie_description :: string

record in_code_sub_agent =
  ica_tools :: "string list"
  ica_name :: string
  ica_description :: string

datatype ext_agent = Genie genie | Served served_sub_agent

text \<open>
  A sub-agent, seen from the tool: invoked with the text of one user message, it returns
  the contents of the messages of its result, or fails.
\<close>

type_synonym agent = "pystr \<Rightarrow> py_error + pystr list"

record tool =
  tool_name :: string
  tool_func :: "pystr \<Rightarrow> py_error + pystr"

text \<open>
  The constructors of the agent framework are parameters: \<^verbatim>\<open>GenieAgent\<close> (space id,
  name, description) and \<^verbatim>\<open>UCFunctionToolkit(function_names).tools\<close>.
\<close>

record framework =
  genie_agent :: "string \<Rightarrow> string \<Rightarrow> string \<Rightarrow> agent"
  uc_function_tools :: "string list \<Rightarrow> tool list"

text \<open>\<^verbatim>\<open>s.replace(old, new)\<close> for one-character \<open>old\<close> and \<open>new\<close>.\<close>

definition str_replace :: "char \<Rightarrow> char \<Rightarrow> string \<Rightarrow> string" where
  "str_replace old new s = map (\<lambda>c. if c = old then new else c) s"

text \<open>\<^verbatim>\<open>agent_config.name.replace(" ", "_").replace("-", "_")\<close>\<close>

definition normalized_name :: "string \<Rightarrow> string" where
  "normalized_name name = str_replace (CHR ''-'') (CHR ''_'') (str_replace (CHR '' '') (CHR ''_'') name)"

text \<open>
  The body of \<^verbatim>\<open>genie_query_tool\<close>: it reads the agent from the default argument
  \<^verbatim>\<open>_agent\<close> (here \<open>default_agent\<close>), which Python evaluates when the function is
  defined, invokes it with the question as the one user message and returns
  \<^verbatim>\<open>result["messages"][-1].content\<close>.
\<close>

definition delegate :: "agent \<Rightarrow> pystr \<Rightarrow> py_error + pystr" where
  "delegate default_agent question =
     (case default_agent question of
        Inl e \<Rightarrow> Inl e
      | Inr msgs \<Rightarrow> if msgs = [] then Inl IndexError else Inr (last msgs))"

fun ext_name :: "ext_agent \<Rightarrow> string" where
  "ext_name (Genie agent_config) = genie_name agent_config"
| "ext_name (Served agent_config) = ssa_name agent_config"

text \<open>The first loop: \<^verbatim>\<open>domain_tools.extend(uc_toolkit.tools)\<close> for each descriptor.\<close>

fun uc_loop :: "framework \<Rightarrow> tool list \<Rightarrow> in_code_sub_agent list \<Rightarrow> tool list" where
  "uc_loop fw domain_tools [] = domain_tools"
| "uc_loop fw domain_tools (agent_config # rest) =
     uc_loop fw (domain_tools @ uc_function_tools fw (ica_tools agent_config)) rest"

text \<open>
  The second loop. For a \<^verbatim>\<open>Genie\<close> descriptor it appends one delegation tool. For a
  \<^verbatim>\<open>ServedSubAgent\<close> it builds the model and the agent and then applies \<^verbatim>\<open>@tool\<close> to
  \<^verbatim>\<open>served_agent_tool\<close>, whose first statement is an f-string and so no docstring: the
  decorator, given no description, raises \<^verbatim>\<open>ValueError\<close>, and the call of
  \<^verbatim>\<open>build_domain_tools\<close> ends without a list.
\<close>

fun ext_loop :: "framework \<Rightarrow> tool list \<Rightarrow> ext_agent list \<Rightarrow> py_error + tool list" where
  "ext_loop fw domain_tools [] = Inr domain_tools"
| "ext_loop fw domain_tools (Genie agent_config # rest) =
     (let default_agent =
            genie_agent fw (genie_space_id agent_config) (genie_name agent_config)
              (genie_description agent_config);
          genie_query_tool =
            \<lparr>tool_name = normalized_name (genie_name agent_config),
             tool_func = delegate default_agent\<rparr>
      in ext_loop fw (domain_tools @ [genie_query_tool]) rest)"
| "ext_loop fw domain_tools (Served agent_config # rest) = Inl ValueError"

definition build_domain_tools ::
    "framework \<Rightarrow> ext_agent list \<Rightarrow> in_code_sub_agent list \<Rightarrow> py_error + tool list" where
  "build_domain_tools fw externally_served_agents in_code_agents =
     ext_loop fw (uc_loop fw [] in_code_agents) externally_served_agents"

section \<open>The streaming adapter\<close>

text \<open>
  The output items of the Responses API, as \<^verbatim>\<open>create_text_output_item\<close>,
  \<^verbatim>\<open>create_function_call_item\<close> and \<^verbatim>\<open>create_function_call_output_item\<close> build them.
\<close>

datatype item =
    TextItem (item_text: pystr) (item_id: string)
  | FunctionCallItem (item_id: string) (call_id: "string option") (call_name: string)
      (call_arguments: string)
  | FunctionCallOutputItem (output_call_id: string) (output_text: pystr)

record stream_event =
  ev_type :: string
  ev_item :: item

definition output_item_done :: "item \<Rightarrow> stream_event" where
  "output_item_done it = \<lparr>ev_type = ''response.output_item.done'', ev_item = it\<rparr>"

text \<open>
  \<^verbatim>\<open>ResponsesAgentStreamEvent(type=..., item=item)\<close> validates the item and raises
  \<^verbatim>\<open>ValidationError\<close> for a function-call item whose \<^verbatim>\<open>call_id\<close> is \<^verbatim>\<open>None\<close>; the
  other fields of the three kinds of item are strings by their types here.
\<close>

definition valid_item :: "item \<Rightarrow> bool" where
  "valid_item it =
     (case it of
        TextItem t i \<Rightarrow> True
      | FunctionCallItem i c n a \<Rightarrow> c \<noteq> None
      | FunctionCallOutputItem c t \<Rightarrow> True)"

text \<open>
  The loop \<^verbatim>\<open>for item in self._langchain_to_responses(msg): yield ...\<close>: the events
  yielded, and the exception when building one of them raises.
\<close>

fun yield_items :: "item list \<Rightarrow> stream_event list \<times> py_error option" where
  "yield_items [] = ([], None)"
| "yield_items (it # its) =
     (if valid_item it then
        (case yield_items its of (rest, r) \<Rightarrow> (output_item_done it # rest, r))
      else ([], Some ValidationError))"

text \<open>
  The library functions the adapter calls: \<open>uuid4 lib n\<close> is the text of the \<open>n\<close>-th
  \<^verbatim>\<open>str(uuid4())\<close> of the invocation, \<open>json_dumps lib\<close> is \<^verbatim>\<open>json.dumps\<close>.
\<close>

record 'j lib =
  uuid4 :: "nat \<Rightarrow> string"
  json_dumps :: "'j \<Rightarrow> string"

text \<open>
  \<^verbatim>\<open>message.get("id") or str(uuid4())\<close>: the identifier of the message unless it is
  \<^verbatim>\<open>None\<close> or empty; then a fresh one. The number is the count of identifiers drawn.
\<close>

definition id_or_uuid :: "'j lib \<Rightarrow> nat \<Rightarrow> string option \<Rightarrow> string \<times> nat" where
  "id_or_uuid lib n mid =
     (case mid of
        None \<Rightarrow> (uuid4 lib n, Suc n)
      | Some i \<Rightarrow> if i \<noteq> [] then (i, n) else (uuid4 lib n, Suc n))"

text \<open>The list comprehension over \<^verbatim>\<open>tool_calls\<close>.\<close>

fun function_call_items ::
    "'j lib \<Rightarrow> nat \<Rightarrow> string option \<Rightarrow> 'j tool_call list \<Rightarrow> item list \<times> nat" where
  "function_call_items lib n mid [] = ([], n)"
| "function_call_items lib n mid (tc # tcs) =
     (let (i, n1) = id_or_uuid lib n mid;
          (rest, n2) = function_call_items lib n1 mid tcs
      in (FunctionCallItem i (tc_id tc) (tc_name tc) (json_dumps lib (tc_args tc)) # rest, n2))"

definition langchain_to_responses ::
    "'j lib \<Rightarrow> nat \<Rightarrow> 'j message \<Rightarrow> item list \<times> nat" where
  "langchain_to_responses lib n message =
     (if msg_type message = ''ai'' then
        let (out1, n1) =
              (if content message \<noteq> [] then
                 let (i, n') = id_or_uuid lib n (msg_id message)
                 in ([TextItem (content message) i], n')
               else ([], n));
            (out2, n2) = function_call_items lib n1 (msg_id message) (tool_calls message)
        in (out1 @ out2, n2)
      else if msg_type message = ''tool'' then
        ([FunctionCallOutputItem (tool_call_id message) (content message)], n)
      else ([], n))"

text \<open>
  The state of one run of \<^verbatim>\<open>predict_stream\<close>: the locals \<^verbatim>\<open>first_name\<close> and
  \<^verbatim>\<open>seen_ids\<close>, the attribute \<^verbatim>\<open>self._final_state\<close>, and the count of identifiers
  drawn from \<^verbatim>\<open>uuid4\<close>.
\<close>

record 'j adapter =
  first_name :: bool
  seen_ids :: "string option set"
  final_state :: "'j node_data option"
  uuid_next :: nat

text \<open>
  The loop \<^verbatim>\<open>for msg in node_data["messages"]\<close>: the events yielded, the state at
  the end, and the exception when one ends the loop.
\<close>

fun emit_messages ::
    "'j lib \<Rightarrow> 'j adapter \<Rightarrow> 'j message list \<Rightarrow>
       stream_event list \<times> 'j adapter \<times> py_error option" where
  "emit_messages lib st [] = ([], st, None)"
| "emit_messages lib st (msg # msgs) =
     (if msg_id msg \<notin> seen_ids st then
        let (its, n) = langchain_to_responses lib (uuid_next st) msg;
            st1 = st\<lparr>seen_ids := insert (msg_id msg) (seen_ids st), uuid_next := n\<rparr>
        in (case yield_items its of
              (a, Some e) \<Rightarrow> (a, st1, Some e)
            | (a, None) \<Rightarrow>
                (case emit_messages lib st1 msgs of (b, st2, r) \<Rightarrow> (a @ b, st2, r)))
      else emit_messages lib st msgs)"

text \<open>The loop \<^verbatim>\<open>for node_data in events.values()\<close>.\<close>

fun emit_nodes ::
    "'j lib \<Rightarrow> 'j adapter \<Rightarrow> (string \<times> 'j node_data) list \<Rightarrow>
       stream_event list \<times> 'j adapter \<times> py_error option" where
  "emit_nodes lib st [] = ([], st, None)"
| "emit_nodes lib st ((node_name, node_data) # nodes) =
     (case emit_messages lib (st\<lparr>final_state := Some node_data\<rparr>) (messages node_data) of
        (a, st1, Some e) \<Rightarrow> (a, st1, Some e)
      | (a, st1, None) \<Rightarrow>
          (case emit_nodes lib st1 nodes of (b, st2, r) \<Rightarrow> (a @ b, st2, r)))"

text \<open>
  The block under \<^verbatim>\<open>if not first_name\<close>: the announcement of the node named by the
  first key of the event. \<^verbatim>\<open>tuple(events.keys())[0]\<close> raises \<^verbatim>\<open>IndexError\<close> on an
  empty dictionary.
\<close>

definition node_name_item :: "'j lib \<Rightarrow> nat \<Rightarrow> string \<Rightarrow> stream_event" where
  "node_name_item lib n node_name =
     output_item_done (TextItem (py (''<name>'' @ node_name @ ''</name>'')) (uuid4 lib n))"

definition announce ::
    "'j lib \<Rightarrow> 'j adapter \<Rightarrow> (string \<times> 'j node_data) list \<Rightarrow>
       py_error + stream_event list \<times> 'j adapter" where
  "announce lib st events =
     (if \<not> first_name st then
        (case events of
           [] \<Rightarrow> Inl IndexError
         | (node_name, _) # _ \<Rightarrow>
             if node_name \<noteq> ''formatter'' then
               Inr ([node_name_item lib (uuid_next st) node_name],
                    st\<lparr>uuid_next := Suc (uuid_next st)\<rparr>)
             else Inr ([], st))
      else Inr ([], st))"

text \<open>
  The body of the loop over the stream, for one pair \<^verbatim>\<open>(event_name, events)\<close>: the
  items it yields, the state after it, and the exception when it raises one (then
  \<^verbatim>\<open>first_name = False\<close> at the end of the body is not reached).
\<close>

definition on_event ::
    "'j lib \<Rightarrow> 'j adapter \<Rightarrow> string \<times> (string \<times> 'j node_data) list \<Rightarrow>
       stream_event list \<times> 'j adapter \<times> py_error option" where
  "on_event lib st ev =
     (case ev of (event_name, events) \<Rightarrow>
        if event_name = ''updates'' then
          (case announce lib st events of
             Inl e \<Rightarrow> ([], st, Some e)
           | Inr (a, st1) \<Rightarrow>
               (case emit_nodes lib st1 events of
                  (b, st2, Some e) \<Rightarrow> (a @ b, st2, Some e)
                | (b, st2, None) \<Rightarrow> (a @ b, st2\<lparr>first_name := False\<rparr>, None)))
        else ([], st\<lparr>first_name := False\<rparr>, None))"

fun stream_loop ::
    "'j lib \<Rightarrow> 'j adapter \<Rightarrow> (string \<times> (string \<times> 'j node_data) list) list \<Rightarrow>
       stream_event list \<times> 'j adapter \<times> py_error option" where
  "stream_loop lib st [] = ([], st, None)"
| "stream_loop lib st (ev # evs) =
     (case on_event lib st ev of
        (xs, st1, Some e) \<Rightarrow> (xs, st1, Some e)
      | (xs, st1, None) \<Rightarrow>
          (case stream_loop lib st1 evs of (ys, st2, r) \<Rightarrow> (xs @ ys, st2, r)))"

text \<open>
  \<^verbatim>\<open>predict_stream\<close>. \<open>self_final_state\<close> is \<^verbatim>\<open>self._final_state\<close> at the call and
  \<open>stream\<close> the finite sequence of pairs that \<^verbatim>\<open>self.agent.stream(...)\<close> yields for the
  request. The result: the events yielded, the state at the end (its \<open>final_state\<close> is
  the new \<^verbatim>\<open>self._final_state\<close>) and the exception, if one ended the generator.
\<close>

definition predict_stream ::
    "'j lib \<Rightarrow> 'j node_data option \<Rightarrow> (string \<times> (string \<times> 'j node_data) list) list \<Rightarrow>
       stream_event list \<times> 'j adapter \<times> py_error option" where
  "predict_stream lib self_final_state stream =
     stream_loop lib
       \<lparr>first_name = True, seen_ids = {}, final_state = self_final_state, uuid_next = 0\<rparr>
       stream"


record response =
  output_items :: "item list"
  custom_outputs :: "string \<rightharpoonup> pyval"



section \<open>What the adapter surfaces, stated apart from the loop\<close>

text \<open>
  The definitions of this section are not taken from the source. They say, without the
  loop's state, which messages of a stream the adapter is meant to translate and which
  state it is meant to retain; the theorems below compare the loop with them.
\<close>

text \<open>The messages of one pair of the stream, and of the whole stream, in order.\<close>

definition nodes_messages :: "(string \<times> 'j node_data) list \<Rightarrow> 'j message list" where
  "nodes_messages nodes = concat (map (\<lambda>node. messages (snd node)) nodes)"

definition event_messages :: "string \<times> (string \<times> 'j node_data) list \<Rightarrow> 'j message list" where
  "event_messages ev = (if fst ev = ''updates'' then nodes_messages (snd ev) else [])"

definition stream_messages ::
    "(string \<times> (string \<times> 'j node_data) list) list \<Rightarrow> 'j message list" where
  "stream_messages stream = concat (map event_messages stream)"

text \<open>
  The messages of a list whose \<^verbatim>\<open>id\<close> is not in \<open>S\<close> and is not the \<^verbatim>\<open>id\<close> of an earlier
  message of the list.
\<close>

fun unseen :: "string option set \<Rightarrow> 'j message list \<Rightarrow> 'j message list" where
  "unseen S [] = []"
| "unseen S (m # ms) =
     (if msg_id m \<in> S then unseen S ms else m # unseen (insert (msg_id m) S) ms)"

text \<open>
  What one run does, as a list of actions: announce a node, translate a message and
  yield its items, raise an exception.
\<close>

datatype 'j action = Announce string | Translate "'j message" | Raise py_error

fun translated :: "'j action list \<Rightarrow> 'j message list" where
  "translated [] = []"
| "translated (Announce node_name # acts) = translated acts"
| "translated (Translate m # acts) = m # translated acts"
| "translated (Raise e # acts) = translated acts"

text \<open>
  The events a list of actions yields, from the \<open>n\<close>-th fresh identifier on, up to the
  first exception: one raised by an action, or by the validation of an item.
\<close>

fun render ::
    "'j lib \<Rightarrow> nat \<Rightarrow> 'j action list \<Rightarrow> stream_event list \<times> nat \<times> py_error option" where
  "render lib n [] = ([], n, None)"
| "render lib n (Announce node_name # acts) =
     (case render lib (Suc n) acts of
        (rest, n', r) \<Rightarrow>
          (\<lparr>ev_type = ''response.output_item.done'',
            ev_item = TextItem (py (''<name>'' @ node_name @ ''</name>'')) (uuid4 lib n)\<rparr> # rest,
           n', r))"
| "render lib n (Translate m # acts) =
     (let (its, n1) = langchain_to_responses lib n m
      in case yield_items its of
           (a, Some e) \<Rightarrow> (a, n1, Some e)
         | (a, None) \<Rightarrow> (case render lib n1 acts of (rest, n2, r) \<Rightarrow> (a @ rest, n2, r)))"
| "render lib n (Raise e # acts) = ([], n, Some e)"

definition announced :: "bool \<Rightarrow> string \<times> (string \<times> 'j node_data) list \<Rightarrow> 'j action list" where
  "announced first ev =
     (if fst ev = ''updates'' \<and> \<not> first then
        (case snd ev of
           [] \<Rightarrow> [Raise IndexError]
         | (node_name, _) # _ \<Rightarrow> if node_name \<noteq> ''formatter'' then [Announce node_name] else [])
      else [])"

fun plan ::
    "bool \<Rightarrow> string option set \<Rightarrow> (string \<times> (string \<times> 'j node_data) list) list \<Rightarrow>
       'j action list" where
  "plan first S [] = []"
| "plan first S (ev # evs) =
     announced first ev @ map Translate (unseen S (event_messages ev))
       @ plan False (S \<union> msg_id ` set (event_messages ev)) evs"

text \<open>The state dictionaries of the update events, and the one retained at the end.\<close>

definition update_nodes ::
    "(string \<times> (string \<times> 'j node_data) list) list \<Rightarrow> 'j node_data list" where
  "update_nodes stream =
     concat (map (\<lambda>ev. if fst ev = ''updates'' then map snd (snd ev) else []) stream)"

definition last_retained ::
    "'j node_data option \<Rightarrow> (string \<times> (string \<times> 'j node_data) list) list \<Rightarrow>
       'j node_data option" where
  "last_retained self_final_state stream =
     (if update_nodes stream = [] then self_final_state
      else Some (last (update_nodes stream)))"

text \<open>
  The two update events of one run of the compiled graph: the supervisor node returns the
  state \<open>node_data\<close>, and the formatter node, which runs after the adapter has handled
  the first event, returns \<open>format_final_response alnum node_data\<close>.
\<close>

definition supervisor_event :: "'j node_data \<Rightarrow> string \<times> (string \<times> 'j node_data) list" where
  "supervisor_event node_data = (''updates'', [(''supervisor'', node_data)])"

definition formatter_event ::
    "(nat \<Rightarrow> bool) \<Rightarrow> 'j node_data \<Rightarrow> string \<times> (string \<times> 'j node_data) list" where
  "formatter_event alnum node_data =
     (''updates'', [(''formatter'', format_final_response alnum node_data)])"

section \<open>Patterns that consume a character\<close>

text \<open>
  A check on the shape of a pattern, not taken from the source: \<open>consuming r\<close> holds when
  every match of \<open>r\<close> takes at least one character. It justifies that \<open>re_sub\<close> needs no
  rule for empty matches for the patterns of this file.
\<close>

fun consuming :: "rx \<Rightarrow> bool" where
  "consuming Eps = False"
| "consuming (Lit c) = True"
| "consuming (Cls p) = True"
| "consuming (Seq a b) = (consuming a \<or> consuming b)"
| "consuming (Alt a b) = (consuming a \<and> consuming b)"
| "consuming (Star p) = False"
| "consuming (LazyStar p) = False"

section \<open>Blank lines, stated apart from the matcher\<close>

text \<open>
  Not taken from the source either: the notions in which the theorems below describe
  what the pattern \<^verbatim>\<open>\n\s*\n\s*\n\<close> matches. \<open>nl_suffixes s\<close> lists what follows each
  newline of the run of whitespace at the start of \<open>s\<close>; \<open>collapsed s\<close> says that no
  run of whitespace of \<open>s\<close> holds three newlines.
\<close>

fun nl_suffixes :: "pystr \<Rightarrow> pystr list" where
  "nl_suffixes [] = []"
| "nl_suffixes (c # cs) =
     (if c = nl then cs # nl_suffixes cs else if is_space c then nl_suffixes cs else [])"

fun collapsed :: "pystr \<Rightarrow> bool" where
  "collapsed [] = True"
| "collapsed (c # cs) = (length (nl_suffixes (c # cs)) \<le> 2 \<and> collapsed cs)"

section \<open>Sample inputs\<close>

text \<open>A table for \<^verbatim>\<open>str.isalnum\<close> above code point 255 that knows the Greek letters.\<close>

definition sample_alnum :: "nat \<Rightarrow> bool" where
  "sample_alnum c = ((913 \<le> c \<and> c \<le> 929) \<or> (931 \<le> c \<and> c \<le> 937) \<or> (945 \<le> c \<and> c \<le> 969))"

definition sample_text :: pystr where
  "sample_text = py ''  Hello'' @ [nl, nl, 32, nl, nl] @ [954, 972, 963, 956, 949] @ py ''  ''"

definition sample_reply :: pystr where
  "sample_reply = [916, 959, 957, 949, 46] @ [nl, nl, nl] @ py ''Saved to out.csv, as asked.  ''"

definition sample_lib :: "string lib" where
  "sample_lib = \<lparr>uuid4 = (\<lambda>n. ''uuid-'' @ replicate n (CHR ''i'')), json_dumps = (\<lambda>a. a)\<rparr>"

definition human_msg :: "string message" where
  "human_msg =
     \<lparr>msg_type = ''human'', content = py ''How many accounts?'', msg_id = Some ''h1'',
      tool_calls = [], tool_call_id = []\<rparr>"

definition ai_call_msg :: "string message" where
  "ai_call_msg =
     \<lparr>msg_type = ''ai'', content = [], msg_id = Some ''a1'',
      tool_calls = [\<lparr>tc_id = Some ''c1'', tc_name = ''logfood_genie'', tc_args = ''{}''\<rparr>],
      tool_call_id = []\<rparr>"

definition ai_text_and_call_msg :: "string message" where
  "ai_text_and_call_msg =
     \<lparr>msg_type = ''ai'', content = py ''Let me check.'', msg_id = Some ''m1'',
      tool_calls = [\<lparr>tc_id = Some ''c1'', tc_name = ''logfood_genie'', tc_args = ''{}''\<rparr>],
      tool_call_id = []\<rparr>"

definition ai_bad_call_msg :: "string message" where
  "ai_bad_call_msg =
     \<lparr>msg_type = ''ai'', content = py ''One more.'', msg_id = Some ''m2'',
      tool_calls = [\<lparr>tc_id = None, tc_name = ''logfood_genie'', tc_args = ''{}''\<rparr>],
      tool_call_id = []\<rparr>"

definition tool_msg :: "string message" where
  "tool_msg =
     \<lparr>msg_type = ''tool'', content = py ''42 accounts'', msg_id = Some ''t1'',
      tool_calls = [], tool_call_id = ''c1''\<rparr>"

definition ai_final_msg :: "string message" where
  "ai_final_msg =
     \<lparr>msg_type = ''ai'', content = py ''There are 42. Saved to out.csv'', msg_id = Some ''a2'',
      tool_calls = [], tool_call_id = []\<rparr>"

definition sample_framework :: framework where
  "sample_framework =
     \<lparr>genie_agent =
        (\<lambda>space_id name description question.
           Inr [question, py space_id @ py '' answers '' @ question]),
      uc_function_tools =
        map (\<lambda>function_name. \<lparr>tool_name = function_name, tool_func = (\<lambda>x. Inr x)\<rparr>)\<rparr>"

definition genie_tab :: genie where
  "genie_tab =
     \<lparr>genie_space_id = ''s0'', genie_name = ''Account'' @ [CHR 0x09] @ ''Lookup'',
      genie_task = ''genie'', genie_description = ''d''\<rparr>"

definition genie_one :: genie where
  "genie_one =
     \<lparr>genie_space_id = ''s1'', genie_name = ''Account Lookup'',
      genie_task = ''genie'', genie_description = ''d''\<rparr>"

definition genie_two :: genie where
  "genie_two =
     \<lparr>genie_space_id = ''s2'', genie_name = ''Account-Lookup'',
      genie_task = ''genie'', genie_description = ''d''\<rparr>"

definition served_two :: served_sub_agent where
  "served_two =
     \<lparr>ssa_endpoint_name = ''ep'', ssa_name = ''follow-up messages'',
      ssa_task = ''agent/v1/responses'', ssa_description = ''d''\<rparr>"

definition sample_in_code :: in_code_sub_agent where
  "sample_in_code =
     \<lparr>ica_tools = [''demo.get_account_summaries''], ica_name = ''account summary'',
      ica_description = ''d''\<rparr>"

definition sample_state :: "string node_data" where
  "sample_state =
     \<lparr>messages = [human_msg, ai_text_and_call_msg, tool_msg, ai_final_msg],
      files = Some (PyDict [(''/out.csv'', PyStr ''42'')])\<rparr>"

definition next_state :: "string node_data" where
  "next_state = \<lparr>messages = [ai_final_msg, ai_call_msg], files = None\<rparr>"

definition bad_state :: "string node_data" where
  "bad_state = \<lparr>messages = [ai_text_and_call_msg, ai_bad_call_msg, ai_final_msg], files = None\<rparr>"



section \<open>Properties of the text post-filter\<close>

subsection \<open>No pattern of the source matches the empty string\<close>

lemma star_greedy_length: "rest \<in> set (star_greedy p s) \<Longrightarrow> length rest \<le> length s"
  by (induction s) (auto split: if_splits)

lemma star_lazy_length: "rest \<in> set (star_lazy p s) \<Longrightarrow> length rest \<le> length s"
  by (induction s) (auto split: if_splits)

lemma rmatch_length: "rest \<in> set (rmatch ic r s) \<Longrightarrow> length rest \<le> length s"
proof (induction r arbitrary: s rest)
  case (Seq a b)
  from Seq.prems obtain mid where "mid \<in> set (rmatch ic a s)" "rest \<in> set (rmatch ic b mid)"
    by auto
  with Seq.IH show ?case by fastforce
qed (auto split: list.splits if_splits dest: star_greedy_length star_lazy_length)

lemma rmatch_consuming:
  "consuming r \<Longrightarrow> rest \<in> set (rmatch ic r s) \<Longrightarrow> length rest < length s"
proof (induction r arbitrary: s rest)
  case (Seq a b)
  from Seq.prems obtain mid where m: "mid \<in> set (rmatch ic a s)" "rest \<in> set (rmatch ic b mid)"
    by auto
  from Seq.prems(1) have "consuming a \<or> consuming b" by simp
  then show ?case
  proof
    assume "consuming a"
    with Seq.IH(1) m(1) have "length mid < length s" by blast
    with rmatch_length [OF m(2)] show ?thesis by simp
  next
    assume "consuming b"
    with Seq.IH(2) m(2) have "length rest < length mid" by blast
    with rmatch_length [OF m(1)] show ?thesis by simp
  qed
qed (auto split: list.splits if_splits)

lemma patterns_consuming: "list_all consuming (blank_lines # patterns alnum)"
  by (simp add: patterns_def blank_lines_def seqs_def lits_def plus_def opt_def file_name_def
      i_have_def i_will_def)

text \<open>The definitions that evaluate the patterns on a given text.\<close>

lemmas rx_defs = patterns_def seqs_def lits_def plus_def opt_def file_name_def i_have_def i_will_def
  is_path_def is_word_def alnum_latin1_def is_dot_def is_space_def ci_fold_def nl_def py_def
  blank_lines_def

lemmas filter_defs = remove_file_references_def apply_format_template_def py_strip_def rx_defs

subsection \<open>Texts without a match\<close>

lemma re_sub_no_match: "\<not> re_search ic r s \<Longrightarrow> re_sub ic r rep s = s"
  by (induction s) auto

lemma foldl_re_sub_no_match:
  "\<forall>p\<in>set ps. \<not> re_search ic p s \<Longrightarrow>
     foldl (\<lambda>cleaned pattern. re_sub ic pattern rep cleaned) s ps = s"
  by (induction ps) (auto simp: re_sub_no_match)

text \<open>
  C7. For every text in which none of the fifteen file-operation patterns matches at any
  position, \<open>remove_file_references\<close> returns the text with nothing changed but the
  whitespace normalisation: the blank-line substitution followed by \<^verbatim>\<open>strip\<close>. The text
  is any list of code points, and the table of \<^verbatim>\<open>str.isalnum\<close> any table.
\<close>

theorem no_pattern_only_whitespace_normalized:
  assumes "\<forall>p\<in>set (patterns alnum). \<not> re_search True p s"
  shows "remove_file_references alnum s = py_strip (re_sub False blank_lines [nl, nl] s)"
proof (cases "s = []")
  case True
  then show ?thesis by (simp add: remove_file_references_def py_strip_def)
next
  case False
  with assms show ?thesis
    by (simp add: remove_file_references_def foldl_re_sub_no_match)
qed

theorem no_pattern_only_whitespace_normalized_witness:
  "list_all (\<lambda>p. \<not> re_search True p sample_text) (patterns sample_alnum)
   \<and> remove_file_references sample_alnum sample_text
       = py ''Hello'' @ [nl, nl] @ [954, 972, 963, 956, 949]"
proof -
  have h: "list_all (\<lambda>p. \<not> re_search True p sample_text) (patterns sample_alnum)"
    by (simp add: sample_text_def sample_alnum_def rx_defs)
  then have h': "\<forall>p\<in>set (patterns sample_alnum). \<not> re_search True p sample_text"
    by (simp only: list_all_iff)
  have e: "py_strip (re_sub False blank_lines [nl, nl] sample_text)
             = py ''Hello'' @ [nl, nl] @ [954, 972, 963, 956, 949]"
    by (simp add: sample_text_def py_strip_def rx_defs)
  from no_pattern_only_whitespace_normalized [OF h'] e h show ?thesis by simp
qed

text \<open>
  C9. For the text \<^verbatim>\<open>I've saved it to report.csv. Thanks!\<close> the result of
  \<open>remove_file_references\<close> is \<^verbatim>\<open>. Thanks!\<close>, which does not contain
  \<^verbatim>\<open>report.csv\<close>.
\<close>

theorem report_csv_removed:
  "remove_file_references alnum (py ''I've saved it to report.csv. Thanks!'') = py ''. Thanks!''
   \<and> \<not> sublist (py ''report.csv'')
         (remove_file_references alnum (py ''I've saved it to report.csv. Thanks!''))"
proof -
  have r: "remove_file_references alnum (py ''I've saved it to report.csv. Thanks!'') = py ''. Thanks!''"
    by (simp add: filter_defs)
  have "\<not> sublist (py ''report.csv'') (py ''. Thanks!'')"
    by (simp add: py_def sublist_code)
  with r show ?thesis by simp
qed

subsection \<open>The blank-line substitution\<close>

lemma is_space_nl: "is_space nl"
  by (simp add: is_space_def nl_def)

lemma rmatch_lit_nl:
  "rmatch False (Lit nl) [] = []"
  "rmatch False (Lit nl) (x # xs) = (if x = nl then [xs] else [])"
  by simp_all

lemma rmatch_seq: "rmatch ic (Seq a b) s = concat (map (rmatch ic b) (rmatch ic a s))"
  by simp

lemma greedy_nl:
  "concat (map (rmatch False (Lit nl)) (star_greedy is_space s)) = rev (nl_suffixes s)"
proof (induction s)
  case Nil
  then show ?case by (simp add: rmatch_lit_nl del: rmatch.simps)
next
  case (Cons c cs)
  then show ?case using is_space_nl by (auto simp: rmatch_lit_nl simp del: rmatch.simps)
qed

lemma concat_map_concat:
  "concat (map (\<lambda>u. concat (map f (g u))) xs) = concat (map f (concat (map g xs)))"
  by (induction xs) auto

lemma concat_map_eps: "concat (map (rmatch ic Eps) xs) = xs"
  by (induction xs) auto

lemma rmatch_star_nl:
  "rmatch False (Seq (Star is_space) (Seq (Lit nl) r)) s
     = concat (map (rmatch False r) (rev (nl_suffixes s)))"
proof -
  have step: "rmatch False (Seq (Lit nl) r) = (\<lambda>u. concat (map (rmatch False r) (rmatch False (Lit nl) u)))"
    by (rule ext) (rule rmatch_seq)
  have "rmatch False (Seq (Star is_space) (Seq (Lit nl) r)) s
          = concat (map (rmatch False (Seq (Lit nl) r)) (star_greedy is_space s))"
    by (simp only: rmatch_seq rmatch.simps(6))
  also have "\<dots> = concat (map (\<lambda>u. concat (map (rmatch False r) (rmatch False (Lit nl) u)))
                      (star_greedy is_space s))"
    by (simp only: step)
  also have "\<dots> = concat (map (rmatch False r)
                       (concat (map (rmatch False (Lit nl)) (star_greedy is_space s))))"
    by (rule concat_map_concat)
  finally show ?thesis by (simp only: greedy_nl)
qed

lemma rmatch_star_nl_eps:
  "rmatch False (Seq (Star is_space) (Seq (Lit nl) Eps)) s = rev (nl_suffixes s)"
  by (simp only: rmatch_star_nl concat_map_eps)

lemma rmatch_blank_lines:
  "rmatch False blank_lines (c # cs) =
     (if c = nl then concat (map (\<lambda>u. rev (nl_suffixes u)) (rev (nl_suffixes cs))) else [])"
proof -
  have bl: "blank_lines = Seq (Lit nl) (Seq (Star is_space) (Seq (Lit nl)
          (Seq (Star is_space) (Seq (Lit nl) Eps))))"
    by (simp add: blank_lines_def seqs_def)
  have inner: "rmatch False (Seq (Star is_space) (Seq (Lit nl)
          (Seq (Star is_space) (Seq (Lit nl) Eps)))) cs
       = concat (map (\<lambda>u. rev (nl_suffixes u)) (rev (nl_suffixes cs)))"
  proof -
    have "rmatch False (Seq (Star is_space) (Seq (Lit nl) Eps)) = (\<lambda>u. rev (nl_suffixes u))"
      by (rule ext) (rule rmatch_star_nl_eps)
    then show ?thesis by (simp only: rmatch_star_nl)
  qed
  have "rmatch False blank_lines (c # cs) =
      concat (map (rmatch False (Seq (Star is_space) (Seq (Lit nl)
          (Seq (Star is_space) (Seq (Lit nl) Eps))))) (rmatch False (Lit nl) (c # cs)))"
    unfolding bl by (rule rmatch_seq)
  also have "\<dots> = (if c = nl then rmatch False (Seq (Star is_space) (Seq (Lit nl)
          (Seq (Star is_space) (Seq (Lit nl) Eps)))) cs else [])"
    by (simp add: rmatch_lit_nl del: rmatch.simps)
  finally show ?thesis by (simp only: inner)
qed

lemma nl_suffixes_tail: "nl_suffixes s = a @ t # b \<Longrightarrow> nl_suffixes t = b"
proof (induction s arbitrary: a)
  case Nil
  then show ?case by simp
next
  case (Cons c cs)
  show ?case
  proof (cases "c = nl")
    case True
    with Cons.prems have eq: "cs # nl_suffixes cs = a @ t # b" by simp
    show ?thesis
    proof (cases a)
      case Nil
      with eq show ?thesis by auto
    next
      case (Cons x a')
      with eq have "nl_suffixes cs = a' @ t # b" by auto
      then show ?thesis by (rule Cons.IH)
    qed
  next
    case False
    with Cons.prems have "nl_suffixes cs = a @ t # b" by (auto split: if_splits)
    then show ?thesis by (rule Cons.IH)
  qed
qed

lemma nl_suffixes_shorter: "t \<in> set (nl_suffixes s) \<Longrightarrow> length t < length s"
  by (induction s) (auto split: if_splits)

lemma blank_lines_none:
  "length (nl_suffixes cs) < 2 \<Longrightarrow> concat (map (\<lambda>u. rev (nl_suffixes u)) (rev (nl_suffixes cs))) = []"
proof -
  assume l: "length (nl_suffixes cs) < 2"
  show ?thesis
  proof (cases "nl_suffixes cs")
    case Nil
    then show ?thesis by simp
  next
    case (Cons t ts)
    with l have ts: "ts = []" by (cases ts) auto
    from Cons ts have "nl_suffixes cs = [] @ t # []" by simp
    then have "nl_suffixes t = []" by (rule nl_suffixes_tail)
    with Cons ts show ?thesis by simp
  qed
qed

lemma blank_lines_some:
  assumes "2 \<le> length (nl_suffixes cs)"
  shows "\<exists>rest. concat (map (\<lambda>u. rev (nl_suffixes u)) (rev (nl_suffixes cs)))
                  = last (nl_suffixes cs) # rest"
proof -
  from assms obtain a t u where L: "nl_suffixes cs = a @ [t, u]"
  proof -
    from assms have n: "nl_suffixes cs \<noteq> []" by auto
    then obtain xs u where x: "nl_suffixes cs = xs @ [u]" by (metis rev_exhaust)
    with assms have "xs \<noteq> []" by auto
    then obtain a t where "xs = a @ [t]" by (metis rev_exhaust)
    with x have "nl_suffixes cs = a @ [t, u]" by simp
    then show ?thesis using that by blast
  qed
  then have "nl_suffixes cs = (a @ [t]) @ u # []" by simp
  then have u: "nl_suffixes u = []" by (rule nl_suffixes_tail)
  from L have "nl_suffixes cs = a @ t # [u]" by simp
  then have t: "nl_suffixes t = [u]" by (rule nl_suffixes_tail)
  from L u t show ?thesis by simp
qed

lemma re_sub_blank_lines_Cons:
  "re_sub False blank_lines rep (c # cs) =
     (if c = nl \<and> 2 \<le> length (nl_suffixes cs)
      then rep @ re_sub False blank_lines rep (last (nl_suffixes cs))
      else c # re_sub False blank_lines rep cs)"
proof (cases "c = nl \<and> 2 \<le> length (nl_suffixes cs)")
  case True
  then obtain rest where
    m: "rmatch False blank_lines (c # cs) = last (nl_suffixes cs) # rest"
    using blank_lines_some [of cs] by (auto simp: rmatch_blank_lines)
  from True have "nl_suffixes cs \<noteq> []" by auto
  then have "last (nl_suffixes cs) \<in> set (nl_suffixes cs)" by simp
  then have "length (last (nl_suffixes cs)) < length cs" by (rule nl_suffixes_shorter)
  with m True show ?thesis by simp
next
  case False
  then have "rmatch False blank_lines (c # cs) = []"
    using blank_lines_none [of cs] by (auto simp: rmatch_blank_lines)
  with False show ?thesis by auto
qed

lemma nl_suffixes_last: "nl_suffixes cs \<noteq> [] \<Longrightarrow> nl_suffixes (last (nl_suffixes cs)) = []"
proof -
  assume "nl_suffixes cs \<noteq> []"
  then have "nl_suffixes cs = butlast (nl_suffixes cs) @ last (nl_suffixes cs) # []" by simp
  then show ?thesis by (rule nl_suffixes_tail)
qed

lemma re_sub_blank_lines_count:
  "length (nl_suffixes (re_sub False blank_lines [nl, nl] s)) \<le> length (nl_suffixes s)
   \<and> length (nl_suffixes (re_sub False blank_lines [nl, nl] s)) \<le> 2"
proof (induction "length s" arbitrary: s rule: less_induct)
  case less
  show ?case
  proof (cases s)
    case Nil
    then show ?thesis by simp
  next
    case (Cons c cs)
    show ?thesis
    proof (cases "c = nl \<and> 2 \<le> length (nl_suffixes cs)")
      case True
      define t where "t = last (nl_suffixes cs)"
      from True have ne: "nl_suffixes cs \<noteq> []" by auto
      then have "t \<in> set (nl_suffixes cs)" by (simp add: t_def)
      then have "length t < length s" using nl_suffixes_shorter [of t cs] Cons by simp
      from less [OF this] nl_suffixes_last [OF ne]
      have "nl_suffixes (re_sub False blank_lines [nl, nl] t) = []" by (simp add: t_def)
      with True Cons show ?thesis
        by (simp add: re_sub_blank_lines_Cons t_def del: re_sub.simps)
    next
      case False
      have "length cs < length s" using Cons by simp
      from less [OF this] False Cons show ?thesis
        by (auto simp: re_sub_blank_lines_Cons simp del: re_sub.simps)
    qed
  qed
qed

lemma re_sub_blank_lines_collapsed: "collapsed (re_sub False blank_lines [nl, nl] s)"
proof (induction "length s" arbitrary: s rule: less_induct)
  case less
  show ?case
  proof (cases s)
    case Nil
    then show ?thesis by simp
  next
    case (Cons c cs)
    show ?thesis
    proof (cases "c = nl \<and> 2 \<le> length (nl_suffixes cs)")
      case True
      define t where "t = last (nl_suffixes cs)"
      from True have ne: "nl_suffixes cs \<noteq> []" by auto
      then have "t \<in> set (nl_suffixes cs)" by (simp add: t_def)
      then have lt: "length t < length s" using nl_suffixes_shorter [of t cs] Cons by simp
      from re_sub_blank_lines_count [of t] nl_suffixes_last [OF ne]
      have "nl_suffixes (re_sub False blank_lines [nl, nl] t) = []" by (simp add: t_def)
      with True Cons less [OF lt] show ?thesis
        by (simp add: re_sub_blank_lines_Cons t_def del: re_sub.simps)
    next
      case False
      have lt: "length cs < length s" using Cons by simp
      from re_sub_blank_lines_count [of cs] re_sub_blank_lines_count [of s] less [OF lt] False Cons
      show ?thesis
        by (auto simp: re_sub_blank_lines_Cons simp del: re_sub.simps)
    qed
  qed
qed

lemma collapsed_fixed: "collapsed s \<Longrightarrow> re_sub False blank_lines rep s = s"
proof (induction s)
  case Nil
  then show ?case by simp
next
  case (Cons c cs)
  then have "\<not> (c = nl \<and> 2 \<le> length (nl_suffixes cs))" by auto
  then have "re_sub False blank_lines rep (c # cs) = c # re_sub False blank_lines rep cs"
    by (simp only: re_sub_blank_lines_Cons if_False)
  with Cons show ?case by simp
qed

lemma collapsed_dropWhile: "collapsed s \<Longrightarrow> collapsed (dropWhile P s)"
  by (induction s) auto

lemma nl_suffixes_take: "length (nl_suffixes (take k s)) \<le> length (nl_suffixes s)"
proof (induction s arbitrary: k)
  case Nil
  then show ?case by simp
next
  case (Cons c cs)
  then show ?case by (cases k) auto
qed

lemma collapsed_take: "collapsed s \<Longrightarrow> collapsed (take k s)"
proof (induction s arbitrary: k)
  case Nil
  then show ?case by simp
next
  case (Cons c cs)
  show ?case
  proof (cases k)
    case 0
    then show ?thesis by simp
  next
    case (Suc j)
    from nl_suffixes_take [of "Suc j" "c # cs"] Cons.prems
    have "length (nl_suffixes (c # take j cs)) \<le> 2" by simp
    with Cons Suc show ?thesis by simp
  qed
qed

lemma py_strip_take_drop:
  "py_strip s = take (length (dropWhile is_space s) - length (takeWhile is_space (rev (dropWhile is_space s))))
                  (dropWhile is_space s)"
  by (simp add: py_strip_def dropWhile_eq_drop [of is_space "rev (dropWhile is_space s)"] rev_drop)

lemma collapsed_py_strip: "collapsed s \<Longrightarrow> collapsed (py_strip s)"
  unfolding py_strip_take_drop by (intro collapsed_take collapsed_dropWhile)

lemma dropWhile_take_fixed:
  "take k (dropWhile P s) \<noteq> [] \<Longrightarrow> dropWhile P (take k (dropWhile P s)) = take k (dropWhile P s)"
proof -
  assume ne: "take k (dropWhile P s) \<noteq> []"
  then have d: "dropWhile P s \<noteq> []" by auto
  then have "\<not> P (hd (dropWhile P s))" by (rule hd_dropWhile)
  moreover from ne have "hd (take k (dropWhile P s)) = hd (dropWhile P s)"
    by (cases k; cases "dropWhile P s") auto
  ultimately show ?thesis using ne by (cases "take k (dropWhile P s)") auto
qed

lemma py_strip_idem: "py_strip (py_strip s) = py_strip s"
proof (cases "py_strip s = []")
  case True
  show ?thesis unfolding True by (simp add: py_strip_def)
next
  case False
  have front: "dropWhile is_space (py_strip s) = py_strip s"
    using False unfolding py_strip_take_drop by (rule dropWhile_take_fixed)
  have "dropWhile is_space (rev (py_strip s)) = rev (py_strip s)"
    by (simp add: py_strip_def)
  with front show ?thesis by (simp add: py_strip_def [of "py_strip s"])
qed

text \<open>
  C3, amended. \<open>remove_file_references\<close> is idempotent on every text whose result no
  file-operation pattern matches any more: for such a text a second application returns
  the result of the first. (The whitespace normalisation is idempotent by itself: after
  the blank-line substitution no run of whitespace holds three newlines, and \<^verbatim>\<open>strip\<close>
  keeps that.)
\<close>

theorem idempotent_once_no_pattern_left:
  assumes "\<forall>p\<in>set (patterns alnum). \<not> re_search True p (remove_file_references alnum s)"
  shows "remove_file_references alnum (remove_file_references alnum s) = remove_file_references alnum s"
proof (cases "remove_file_references alnum s = []")
  case True
  then show ?thesis by (simp add: remove_file_references_def)
next
  case False
  then have s: "s \<noteq> []" by (auto simp: remove_file_references_def)
  define u where "u = foldl (\<lambda>cleaned pattern. re_sub True pattern [] cleaned) s (patterns alnum)"
  have t: "remove_file_references alnum s = py_strip (re_sub False blank_lines [nl, nl] u)"
    using s by (simp add: remove_file_references_def u_def)
  have c: "collapsed (remove_file_references alnum s)"
    unfolding t by (rule collapsed_py_strip) (rule re_sub_blank_lines_collapsed)
  have "remove_file_references alnum (remove_file_references alnum s)
          = py_strip (re_sub False blank_lines [nl, nl] (remove_file_references alnum s))"
    using assms False by (simp add: remove_file_references_def [of alnum "remove_file_references alnum s"]
        foldl_re_sub_no_match)
  also have "\<dots> = py_strip (remove_file_references alnum s)"
    by (simp only: collapsed_fixed [OF c])
  also have "\<dots> = remove_file_references alnum s"
    unfolding t by (rule py_strip_idem)
  finally show ?thesis .
qed

text \<open>
  C3 as stated fails: removing one match can join the text around it into a new match,
  which only a second application removes.
\<close>

theorem not_idempotent_when_removal_joins_a_match:
  "remove_file_references sample_alnum (py ''SavedSaved to a.b to c.d'') = py ''Saved to c.d''
   \<and> remove_file_references sample_alnum (remove_file_references sample_alnum (py ''SavedSaved to a.b to c.d'')) = []"
proof -
  have a: "remove_file_references sample_alnum (py ''SavedSaved to a.b to c.d'') = py ''Saved to c.d''"
    by (simp add: filter_defs)
  have b: "remove_file_references sample_alnum (py ''Saved to c.d'') = []"
    by (simp add: filter_defs)
  from a b show ?thesis by simp
qed

theorem idempotent_once_no_pattern_left_witness:
  "remove_file_references sample_alnum sample_reply
     = [916, 959, 957, 949, 46] @ [nl, nl] @ py '', as asked.''
   \<and> list_all (\<lambda>p. \<not> re_search True p (remove_file_references sample_alnum sample_reply))
        (patterns sample_alnum)
   \<and> remove_file_references sample_alnum (remove_file_references sample_alnum sample_reply)
       = [916, 959, 957, 949, 46] @ [nl, nl] @ py '', as asked.''"
proof -
  have r: "remove_file_references sample_alnum sample_reply
             = [916, 959, 957, 949, 46] @ [nl, nl] @ py '', as asked.''"
    by (simp add: sample_reply_def sample_alnum_def filter_defs)
  have "list_all (\<lambda>p. \<not> re_search True p ([916, 959, 957, 949, 46] @ [nl, nl] @ py '', as asked.''))
          (patterns sample_alnum)"
    by (simp add: sample_alnum_def rx_defs)
  then have h: "list_all (\<lambda>p. \<not> re_search True p (remove_file_references sample_alnum sample_reply))
                  (patterns sample_alnum)"
    by (simp only: r)
  then have h': "\<forall>p\<in>set (patterns sample_alnum).
                   \<not> re_search True p (remove_file_references sample_alnum sample_reply)"
    by (simp only: list_all_iff)
  from idempotent_once_no_pattern_left [OF h'] r h show ?thesis by simp
qed

section \<open>Properties of the formatter node\<close>

lemma last_ai_message_None:
  "last_ai_message ms = None \<longleftrightarrow> (\<forall>m\<in>set ms. msg_type m \<noteq> ''ai'')"
  by (induction ms) (auto split: option.splits)

lemma last_ai_message_Some:
  "last_ai_message ms = Some i \<Longrightarrow> i < length ms \<and> msg_type (ms ! i) = ''ai''"
  by (induction ms arbitrary: i) (auto split: option.splits if_splits)

lemma last_ai_message_last:
  "last_ai_message ms = Some i \<Longrightarrow> i < j \<Longrightarrow> j < length ms \<Longrightarrow> msg_type (ms ! j) \<noteq> ''ai''"
proof (induction ms arbitrary: i j)
  case Nil
  then show ?case by simp
next
  case (Cons m ms)
  show ?case
  proof (cases "last_ai_message ms")
    case None
    with Cons.prems have "\<forall>x\<in>set ms. msg_type x \<noteq> ''ai''"
      by (simp add: last_ai_message_None)
    moreover from Cons.prems None have "0 < j" by (auto split: if_splits)
    ultimately show ?thesis using Cons.prems by (cases j) auto
  next
    case (Some k)
    with Cons.prems have i: "i = Suc k" by simp
    with Cons.prems obtain j' where j: "j = Suc j'" by (cases j) auto
    with Cons.prems i Some Cons.IH [of k j'] show ?thesis by simp
  qed
qed

text \<open>
  C10. If the message list of the state holds no message of type \<^verbatim>\<open>"ai"\<close>, or its
  last such message has empty content, \<open>format_final_response\<close> returns the message
  list as it was.
\<close>

theorem formatter_pass_through:
  assumes "(\<forall>m\<in>set (messages state). msg_type m \<noteq> ''ai'')
           \<or> (\<exists>i. last_ai_message (messages state) = Some i \<and> content (messages state ! i) = [])"
  shows "messages (format_final_response alnum state) = messages state"
proof (cases "last_ai_message (messages state)")
  case None
  then show ?thesis by (simp add: format_final_response_def)
next
  case (Some i)
  then have "\<not> (\<forall>m\<in>set (messages state). msg_type m \<noteq> ''ai'')"
    using last_ai_message_None [of "messages state"] by simp
  with assms Some have "content (messages state ! i) = []" by auto
  with Some show ?thesis by (simp add: format_final_response_def)
qed

theorem formatter_pass_through_witness:
  "last_ai_message [human_msg, ai_call_msg, tool_msg] = Some 1
   \<and> content ([human_msg, ai_call_msg, tool_msg] ! 1) = []
   \<and> messages (format_final_response sample_alnum \<lparr>messages = [human_msg, ai_call_msg, tool_msg], files = None\<rparr>)
       = [human_msg, ai_call_msg, tool_msg]"
proof -
  have a: "last_ai_message [human_msg, ai_call_msg, tool_msg] = Some 1"
    by (simp add: human_msg_def ai_call_msg_def tool_msg_def)
  have b: "content ([human_msg, ai_call_msg, tool_msg] ! 1) = []"
    by (simp add: ai_call_msg_def)
  from a b
    formatter_pass_through [of "\<lparr>messages = [human_msg, ai_call_msg, tool_msg], files = None\<rparr>"
      sample_alnum]
  show ?thesis by auto
qed

section \<open>Properties of the tool assembler\<close>

lemma uc_loop_append: "uc_loop fw acc xs = acc @ concat (map (\<lambda>a. uc_function_tools fw (ica_tools a)) xs)"
  by (induction xs arbitrary: acc) auto

lemma ext_loop_Served: "Served s \<in> set xs \<Longrightarrow> ext_loop fw acc xs = Inl ValueError"
proof (induction xs arbitrary: acc)
  case Nil
  then show ?case by simp
next
  case (Cons a xs)
  then show ?case by (cases a) (auto simp: Let_def)
qed

lemma ext_loop_keep:
  "ext_loop fw acc xs = Inr tools \<Longrightarrow> j < length acc \<Longrightarrow> tools ! j = acc ! j"
proof (induction xs arbitrary: acc)
  case Nil
  then show ?case by auto
next
  case (Cons a xs)
  show ?case
  proof (cases a)
    case (Served s)
    with Cons.prems show ?thesis by simp
  next
    case (Genie g)
    with Cons.prems(1) obtain t where "ext_loop fw (acc @ [t]) xs = Inr tools"
      by (simp add: Let_def)
    from Cons.IH [OF this, of ] Cons.prems(2) show ?thesis by (simp add: nth_append)
  qed
qed

lemma ext_loop_Inr:
  "ext_loop fw acc xs = Inr tools \<Longrightarrow> i < length xs \<Longrightarrow>
     \<exists>g. xs ! i = Genie g
       \<and> tools ! (length acc + i) =
           \<lparr>tool_name = normalized_name (genie_name g),
            tool_func =
              delegate (genie_agent fw (genie_space_id g) (genie_name g) (genie_description g))\<rparr>"
proof (induction xs arbitrary: acc i)
  case Nil
  then show ?case by simp
next
  case (Cons a xs)
  show ?case
  proof (cases a)
    case (Served s)
    with Cons.prems show ?thesis by simp
  next
    case (Genie g)
    define new_tool where
      "new_tool = \<lparr>tool_name = normalized_name (genie_name g),
                    tool_func =
                      delegate (genie_agent fw (genie_space_id g) (genie_name g) (genie_description g))\<rparr>"
    from Cons.prems(1) Genie have rest: "ext_loop fw (acc @ [new_tool]) xs = Inr tools"
      by (simp add: Let_def new_tool_def)
    show ?thesis
    proof (cases i)
      case 0
      from ext_loop_keep [OF rest, of "length acc"] have "tools ! length acc = new_tool"
        by simp
      with 0 Genie show ?thesis by (simp add: new_tool_def)
    next
      case (Suc j)
      with Cons.prems(2) have "j < length xs" by simp
      from Cons.IH [OF rest this] Suc show ?thesis by simp
    qed
  qed
qed

lemma normalized_name_map:
  "normalized_name n = map (\<lambda>c. if c = CHR '' '' \<or> c = CHR ''-'' then CHR ''_'' else c) n"
  by (simp add: normalized_name_def str_replace_def)

text \<open>
  A delegation tool built for a \<^verbatim>\<open>Genie\<close> descriptor invokes the agent of that
  descriptor with the question it is given and returns the content of the last message
  of the result.
\<close>

lemma genie_tool_forwards:
  assumes "build_domain_tools fw externally_served_agents in_code_agents = Inr tools"
    and "i < length externally_served_agents"
  shows "\<exists>g. externally_served_agents ! i = Genie g
           \<and> tool_func (tools ! (length (uc_loop fw [] in_code_agents) + i)) question =
               (case genie_agent fw (genie_space_id g) (genie_name g) (genie_description g) question of
                  Inl e \<Rightarrow> Inl e
                | Inr msgs \<Rightarrow> if msgs = [] then Inl IndexError else Inr (last msgs))"
proof -
  from ext_loop_Inr [OF assms [unfolded build_domain_tools_def]]
  obtain g where "externally_served_agents ! i = Genie g"
    and "tools ! (length (uc_loop fw [] in_code_agents) + i) =
           \<lparr>tool_name = normalized_name (genie_name g),
            tool_func =
              delegate (genie_agent fw (genie_space_id g) (genie_name g) (genie_description g))\<rparr>"
    by blast
  then show ?thesis by (simp add: delegate_def)
qed

text \<open>
  C5, amended. The name of every generated delegation tool is the display name of its
  descriptor with every space character (U+0020) and every hyphen replaced by an
  underscore and every other character kept, other whitespace included; so
  \<^verbatim>\<open>Account Lookup\<close> and \<^verbatim>\<open>Account-Lookup\<close> both give \<^verbatim>\<open>Account_Lookup\<close>.
\<close>

theorem tool_name_space_hyphen:
  "normalized_name ''Account Lookup'' = ''Account_Lookup''
   \<and> normalized_name ''Account-Lookup'' = ''Account_Lookup''
   \<and> (build_domain_tools fw externally_served_agents in_code_agents = Inr tools
        \<and> i < length externally_served_agents \<longrightarrow>
        tool_name (tools ! (length (uc_loop fw [] in_code_agents) + i))
          = map (\<lambda>c. if c = CHR '' '' \<or> c = CHR ''-'' then CHR ''_'' else c)
              (ext_name (externally_served_agents ! i)))"
proof -
  have "tool_name (tools ! (length (uc_loop fw [] in_code_agents) + i))
          = map (\<lambda>c. if c = CHR '' '' \<or> c = CHR ''-'' then CHR ''_'' else c)
              (ext_name (externally_served_agents ! i))"
    if "build_domain_tools fw externally_served_agents in_code_agents = Inr tools"
      and "i < length externally_served_agents"
  proof -
    from ext_loop_Inr [OF that(1) [unfolded build_domain_tools_def] that(2)]
    show ?thesis by (auto simp: normalized_name_map)
  qed
  then show ?thesis by (simp add: normalized_name_map)
qed

theorem tool_name_space_hyphen_witness:
  "map_sum id (map tool_name)
     (build_domain_tools sample_framework [Genie genie_one, Genie genie_two] [sample_in_code])
     = Inr [''demo.get_account_summaries'', ''Account_Lookup'', ''Account_Lookup'']
   \<and> tool_name (projr (build_domain_tools sample_framework [Genie genie_one, Genie genie_two]
                          [sample_in_code])
        ! (length (uc_loop sample_framework [] [sample_in_code]) + 1)) = ''Account_Lookup''"
proof -
  define R where
    "R = build_domain_tools sample_framework [Genie genie_one, Genie genie_two] [sample_in_code]"
  have m: "map_sum id (map tool_name) R
             = Inr [''demo.get_account_summaries'', ''Account_Lookup'', ''Account_Lookup'']"
    by (simp add: R_def build_domain_tools_def sample_framework_def genie_one_def genie_two_def
        sample_in_code_def normalized_name_def str_replace_def Let_def)
  then have r: "build_domain_tools sample_framework [Genie genie_one, Genie genie_two] [sample_in_code]
                  = Inr (projr R)"
    by (cases R) (auto simp: R_def)
  have l: "(1::nat) < length [Genie genie_one, Genie genie_two]" by simp
  have e: "map (\<lambda>c. if c = CHR '' '' \<or> c = CHR ''-'' then CHR ''_'' else c)
             (ext_name ([Genie genie_one, Genie genie_two] ! 1)) = ''Account_Lookup''"
    by (simp add: genie_two_def)
  from tool_name_space_hyphen [of sample_framework "[Genie genie_one, Genie genie_two]"
      "[sample_in_code]" "projr R" 1] r l
  have "tool_name (projr R ! (length (uc_loop sample_framework [] [sample_in_code]) + 1))
          = map (\<lambda>c. if c = CHR '' '' \<or> c = CHR ''-'' then CHR ''_'' else c)
              (ext_name ([Genie genie_one, Genie genie_two] ! 1))"
    by blast
  then have "tool_name (projr R ! (length (uc_loop sample_framework [] [sample_in_code]) + 1))
               = ''Account_Lookup''"
    by (simp only: e)
  with m show ?thesis unfolding R_def by (rule conjI)
qed

text \<open>
  C5 as stated fails for whitespace other than the space character: a tab in the display
  name stays in the tool name.
\<close>

theorem tool_name_keeps_tab:
  "map_sum id (map tool_name) (build_domain_tools sample_framework [Genie genie_tab] [])
     = Inr [''Account'' @ [CHR 0x09] @ ''Lookup'']
   \<and> is_space (of_char (CHR 0x09))"
  by (simp add: build_domain_tools_def sample_framework_def genie_tab_def
        normalized_name_def str_replace_def Let_def is_space_def)

text \<open>
  C6 fails on the code for a \<^verbatim>\<open>ServedSubAgent\<close> descriptor: \<open>build_domain_tools\<close> raises
  \<^verbatim>\<open>ValueError\<close> and generates no tool that could forward a task to the agent of that
  descriptor.
\<close>

theorem served_descriptor_raises:
  "build_domain_tools sample_framework [Served served_two] [] = Inl ValueError"
  by (simp add: build_domain_tools_def)

section \<open>Properties of the streaming adapter\<close>

subsection \<open>The loop yields what the list of actions yields\<close>

lemma unseen_append: "unseen S (a @ b) = unseen S a @ unseen (S \<union> msg_id ` set a) b"
  by (induction a arbitrary: S) (auto simp: insert_absorb)

lemma unseen_ids: "msg_id ` set (unseen S ms) = msg_id ` set ms - S"
  by (induction ms arbitrary: S) auto

lemma unseen_distinct: "distinct (map msg_id (unseen S ms))"
proof (induction ms arbitrary: S)
  case Nil
  then show ?case by simp
next
  case (Cons m ms)
  have "msg_id m \<notin> msg_id ` set (unseen (insert (msg_id m) S) ms)"
    by (simp add: unseen_ids)
  with Cons show ?case by simp
qed

lemma unseen_all_seen: "msg_id ` set ms \<subseteq> S \<Longrightarrow> unseen S ms = []"
  by (induction ms) auto

lemma distinct_unseen: "distinct (map msg_id ms) \<Longrightarrow> msg_id ` set ms \<inter> S = {} \<Longrightarrow> unseen S ms = ms"
  by (induction ms arbitrary: S) auto

lemma translated_append: "translated (a @ b) = translated a @ translated b"
  by (induction a rule: translated.induct) auto

lemma translated_map_Translate: "translated (map Translate ms) = ms"
  by (induction ms) auto

lemma translated_announced: "translated (announced first ev) = []"
  by (auto simp: announced_def split: list.splits)

lemma translated_plan: "translated (plan first S evs) = unseen S (stream_messages evs)"
  by (induction evs arbitrary: first S)
    (simp_all add: stream_messages_def translated_append translated_announced
      translated_map_Translate unseen_append)

lemma render_append:
  "render lib n (a @ b) =
     (case render lib n a of
        (x, n1, Some e) \<Rightarrow> (x, n1, Some e)
      | (x, n1, None) \<Rightarrow> (case render lib n1 b of (y, n2, r) \<Rightarrow> (x @ y, n2, r)))"
proof (induction a arbitrary: n)
  case Nil
  then show ?case by (simp split: prod.splits)
next
  case (Cons act a)
  then show ?case
    by (cases act) (simp_all add: split_beta Let_def split: prod.splits option.splits)
qed

lemma render_None_append:
  "snd (snd (render lib n a)) = None \<Longrightarrow>
     render lib n (a @ b) =
       (fst (render lib n a) @ fst (render lib (fst (snd (render lib n a))) b),
        snd (render lib (fst (snd (render lib n a))) b))"
  by (cases "render lib n a") (auto simp: render_append split: prod.splits option.splits)

lemma render_Some_append:
  "snd (snd (render lib n a)) = Some e \<Longrightarrow> render lib n (a @ b) = render lib n a"
  by (cases "render lib n a") (auto simp: render_append split: prod.splits option.splits)

lemma emit_messages_render:
  "fst (emit_messages lib st ms)
     = fst (render lib (uuid_next st) (map Translate (unseen (seen_ids st) ms)))
   \<and> snd (snd (emit_messages lib st ms))
     = snd (snd (render lib (uuid_next st) (map Translate (unseen (seen_ids st) ms))))
   \<and> (snd (snd (emit_messages lib st ms)) = None \<longrightarrow>
        fst (snd (emit_messages lib st ms)) =
          st\<lparr>seen_ids := seen_ids st \<union> msg_id ` set ms,
             uuid_next := fst (snd (render lib (uuid_next st)
                                     (map Translate (unseen (seen_ids st) ms))))\<rparr>)"
proof (induction ms arbitrary: st)
  case Nil
  then show ?case by simp
next
  case (Cons m ms)
  show ?case
  proof (cases "msg_id m \<in> seen_ids st")
    case True
    then have "insert (msg_id m) (seen_ids st \<union> msg_id ` set ms) = seen_ids st \<union> msg_id ` set ms"
      by auto
    with True Cons [of st] show ?thesis by simp
  next
    case False
    obtain its n where l: "langchain_to_responses lib (uuid_next st) m = (its, n)"
      by (cases "langchain_to_responses lib (uuid_next st) m")
    obtain a r where y: "yield_items its = (a, r)" by (cases "yield_items its")
    define st1 where "st1 = st\<lparr>seen_ids := insert (msg_id m) (seen_ids st), uuid_next := n\<rparr>"
    show ?thesis
    proof (cases r)
      case (Some e)
      with False l y show ?thesis by simp
    next
      case None
      from Cons [of st1] have ih:
        "fst (emit_messages lib st1 ms)
           = fst (render lib n (map Translate (unseen (insert (msg_id m) (seen_ids st)) ms)))"
        "snd (snd (emit_messages lib st1 ms))
           = snd (snd (render lib n (map Translate (unseen (insert (msg_id m) (seen_ids st)) ms))))"
        "snd (snd (emit_messages lib st1 ms)) = None \<Longrightarrow>
           fst (snd (emit_messages lib st1 ms)) =
             st1\<lparr>seen_ids := insert (msg_id m) (seen_ids st) \<union> msg_id ` set ms,
                 uuid_next := fst (snd (render lib n
                    (map Translate (unseen (insert (msg_id m) (seen_ids st)) ms))))\<rparr>"
        by (simp_all add: st1_def)
      have e: "emit_messages lib st (m # ms) =
                 (a @ fst (emit_messages lib st1 ms), fst (snd (emit_messages lib st1 ms)),
                  snd (snd (emit_messages lib st1 ms)))"
        using False l y None by (simp add: st1_def split_beta Let_def)
      have rr: "render lib (uuid_next st) (map Translate (unseen (seen_ids st) (m # ms))) =
                 (a @ fst (render lib n (map Translate (unseen (insert (msg_id m) (seen_ids st)) ms))),
                  snd (render lib n (map Translate (unseen (insert (msg_id m) (seen_ids st)) ms))))"
        using False l y None by (simp add: split_beta)
      show ?thesis
        unfolding e rr using ih by (auto simp: st1_def)
    qed
  qed
qed

lemma emit_nodes_render:
  "fst (emit_nodes lib st nodes)
     = fst (render lib (uuid_next st) (map Translate (unseen (seen_ids st) (nodes_messages nodes))))
   \<and> snd (snd (emit_nodes lib st nodes))
     = snd (snd (render lib (uuid_next st)
                  (map Translate (unseen (seen_ids st) (nodes_messages nodes)))))
   \<and> (snd (snd (emit_nodes lib st nodes)) = None \<longrightarrow>
        fst (snd (emit_nodes lib st nodes)) =
          st\<lparr>seen_ids := seen_ids st \<union> msg_id ` set (nodes_messages nodes),
             uuid_next := fst (snd (render lib (uuid_next st)
                                     (map Translate (unseen (seen_ids st) (nodes_messages nodes))))),
             final_state := (if nodes = [] then final_state st else Some (snd (last nodes)))\<rparr>)"
proof (induction nodes arbitrary: st)
  case Nil
  then show ?case by (simp add: nodes_messages_def)
next
  case (Cons node nodes)
  obtain node_name node_data where node: "node = (node_name, node_data)" by (cases node)
  define st0 where "st0 = st\<lparr>final_state := Some node_data\<rparr>"
  define A where "A = map Translate (unseen (seen_ids st) (messages node_data))"
  define B where
    "B = map Translate (unseen (seen_ids st \<union> msg_id ` set (messages node_data)) (nodes_messages nodes))"
  have split: "map Translate (unseen (seen_ids st) (nodes_messages (node # nodes))) = A @ B"
    by (simp add: node nodes_messages_def unseen_append A_def B_def)
  note m = emit_messages_render [of lib st0 "messages node_data"]
  obtain a st1 r where em: "emit_messages lib st0 (messages node_data) = (a, st1, r)"
    by (cases "emit_messages lib st0 (messages node_data)")
  from m em have ma: "a = fst (render lib (uuid_next st) A)"
    and mr: "r = snd (snd (render lib (uuid_next st) A))"
    by (simp_all add: st0_def A_def)
  show ?case
  proof (cases r)
    case (Some e)
    with em have en: "emit_nodes lib st (node # nodes) = (a, st1, Some e)"
      by (simp add: node st0_def)
    from Some mr have re: "snd (snd (render lib (uuid_next st) A)) = Some e" by simp
    then have rr: "render lib (uuid_next st) (A @ B) = render lib (uuid_next st) A"
      by (rule render_Some_append)
    show ?thesis unfolding split en rr by (simp add: ma re)
  next
    case None
    with m em have s1: "st1 = st0\<lparr>seen_ids := seen_ids st \<union> msg_id ` set (messages node_data),
                                 uuid_next := fst (snd (render lib (uuid_next st) A))\<rparr>"
      by (simp add: st0_def A_def)
    from None em have en: "emit_nodes lib st (node # nodes) =
        (a @ fst (emit_nodes lib st1 nodes), fst (snd (emit_nodes lib st1 nodes)),
         snd (snd (emit_nodes lib st1 nodes)))"
      by (simp add: node st0_def split_beta)
    from None mr have rr: "render lib (uuid_next st) (A @ B) =
        (fst (render lib (uuid_next st) A) @ fst (render lib (uuid_next st1) B),
         snd (render lib (uuid_next st1) B))"
      by (simp add: render_None_append s1)
    from Cons [of st1] have ih:
      "fst (emit_nodes lib st1 nodes) = fst (render lib (uuid_next st1) B)"
      "snd (snd (emit_nodes lib st1 nodes)) = snd (snd (render lib (uuid_next st1) B))"
      "snd (snd (emit_nodes lib st1 nodes)) = None \<Longrightarrow>
         fst (snd (emit_nodes lib st1 nodes)) =
           st1\<lparr>seen_ids := seen_ids st1 \<union> msg_id ` set (nodes_messages nodes),
               uuid_next := fst (snd (render lib (uuid_next st1) B)),
               final_state := (if nodes = [] then final_state st1 else Some (snd (last nodes)))\<rparr>"
      by (simp_all add: B_def s1)
    have nm: "nodes_messages (node # nodes) = messages node_data @ nodes_messages nodes"
      by (simp add: node nodes_messages_def)
    have g3: "fst (snd (emit_nodes lib st1 nodes)) =
          st\<lparr>seen_ids := seen_ids st \<union> msg_id ` set (nodes_messages (node # nodes)),
             uuid_next := fst (snd (render lib (uuid_next st1) B)),
             final_state := Some (snd (last (node # nodes)))\<rparr>"
      if "snd (snd (emit_nodes lib st1 nodes)) = None"
      unfolding ih(3) [OF that] nm by (simp add: s1 st0_def image_Un Un_assoc node)
    have "fst (emit_nodes lib st (node # nodes)) = fst (render lib (uuid_next st) (A @ B))"
      unfolding en rr by (simp add: ih(1) ma)
    moreover have "snd (snd (emit_nodes lib st (node # nodes)))
                     = snd (snd (render lib (uuid_next st) (A @ B)))"
      unfolding en rr by (simp add: ih(2))
    moreover have "snd (snd (emit_nodes lib st (node # nodes))) = None \<longrightarrow>
        fst (snd (emit_nodes lib st (node # nodes))) =
          st\<lparr>seen_ids := seen_ids st \<union> msg_id ` set (nodes_messages (node # nodes)),
             uuid_next := fst (snd (render lib (uuid_next st) (A @ B))),
             final_state := (if node # nodes = [] then final_state st
                             else Some (snd (last (node # nodes))))\<rparr>"
      unfolding en rr using g3 by simp
    ultimately show ?thesis unfolding split by blast
  qed
qed

lemma on_event_updates:
  "announce lib st events = Inr (a, st1) \<Longrightarrow>
     on_event lib st (''updates'', events) =
       (a @ fst (emit_nodes lib st1 events),
        (if snd (snd (emit_nodes lib st1 events)) = None
         then (fst (snd (emit_nodes lib st1 events)))\<lparr>first_name := False\<rparr>
         else fst (snd (emit_nodes lib st1 events))),
        snd (snd (emit_nodes lib st1 events)))"
  by (cases "emit_nodes lib st1 events")
    (auto simp: on_event_def split: option.splits)

lemma last_retained_single:
  "last_retained fs [(''updates'', events)] = (if events = [] then fs else Some (snd (last events)))"
  by (simp add: last_retained_def update_nodes_def last_map)

lemma on_event_render:
  "fst (on_event lib st ev)
     = fst (render lib (uuid_next st)
             (announced (first_name st) ev @ map Translate (unseen (seen_ids st) (event_messages ev))))
   \<and> snd (snd (on_event lib st ev))
     = snd (snd (render lib (uuid_next st)
             (announced (first_name st) ev @ map Translate (unseen (seen_ids st) (event_messages ev)))))
   \<and> (snd (snd (on_event lib st ev)) = None \<longrightarrow>
        uuid_next (fst (snd (on_event lib st ev)))
          = fst (snd (render lib (uuid_next st)
              (announced (first_name st) ev @ map Translate (unseen (seen_ids st) (event_messages ev)))))
        \<and> seen_ids (fst (snd (on_event lib st ev))) = seen_ids st \<union> msg_id ` set (event_messages ev)
        \<and> first_name (fst (snd (on_event lib st ev))) = False
        \<and> final_state (fst (snd (on_event lib st ev))) = last_retained (final_state st) [ev])"
proof -
  obtain event_name events where ev: "ev = (event_name, events)" by (cases ev)
  show ?thesis
  proof (cases "event_name = ''updates''")
    case False
    then show ?thesis
      by (simp add: ev on_event_def announced_def event_messages_def last_retained_def
          update_nodes_def)
  next
    case True
    note upd = True
    define T where "T = map Translate (unseen (seen_ids st) (nodes_messages events))"
    have msgs: "map Translate (unseen (seen_ids st) (event_messages ev)) = T"
      by (simp add: ev upd event_messages_def T_def)
    consider (raise) "\<not> first_name st" "events = []"
      | (name) node_name where "\<not> first_name st" "events \<noteq> []" "fst (hd events) = node_name"
          "node_name \<noteq> ''formatter''"
      | (quiet) "first_name st \<or> (events \<noteq> [] \<and> fst (hd events) = ''formatter'')"
      by blast
    then show ?thesis
    proof cases
      case raise
      then show ?thesis
        by (simp add: ev upd on_event_def announce_def announced_def)
    next
      case quiet
      then have a: "announce lib st events = Inr ([], st)"
        by (cases events) (auto simp: announce_def)
      from quiet have b: "announced (first_name st) ev = []"
        by (cases events) (auto simp: announced_def ev)
      note n = emit_nodes_render [of lib st events]
      from quiet have lr: "first_name st \<or> events \<noteq> []" by blast
      show ?thesis
        unfolding ev upd on_event_updates [OF a] b [unfolded ev upd] msgs [unfolded ev upd]
        using n by (auto simp: T_def last_retained_single event_messages_def)
    next
      case name
      define st1 where "st1 = st\<lparr>uuid_next := Suc (uuid_next st)\<rparr>"
      from name have a: "announce lib st events =
          Inr ([node_name_item lib (uuid_next st) node_name], st1)"
        by (cases events) (auto simp: announce_def st1_def)
      from name have b: "announced (first_name st) ev = [Announce node_name]"
        by (cases events) (auto simp: announced_def ev upd)
      note n = emit_nodes_render [of lib st1 events]
      have r: "render lib (uuid_next st) ([Announce node_name] @ T) =
                 (node_name_item lib (uuid_next st) node_name # fst (render lib (Suc (uuid_next st)) T),
                  snd (render lib (Suc (uuid_next st)) T))"
        by (simp add: node_name_item_def output_item_done_def split_beta)
      show ?thesis
        unfolding ev upd on_event_updates [OF a] b [unfolded ev upd] msgs [unfolded ev upd] r
        using n name(2) by (auto simp: T_def st1_def last_retained_single event_messages_def)
    qed
  qed
qed

lemma last_retained_Cons:
  "last_retained fs (ev # evs) = last_retained (last_retained fs [ev]) evs"
  by (simp add: last_retained_def update_nodes_def)

lemma stream_messages_Cons: "stream_messages (ev # evs) = event_messages ev @ stream_messages evs"
  by (simp add: stream_messages_def)

lemma stream_loop_render:
  "fst (stream_loop lib st evs)
     = fst (render lib (uuid_next st) (plan (first_name st) (seen_ids st) evs))
   \<and> snd (snd (stream_loop lib st evs))
     = snd (snd (render lib (uuid_next st) (plan (first_name st) (seen_ids st) evs)))
   \<and> (snd (snd (stream_loop lib st evs)) = None \<longrightarrow>
        uuid_next (fst (snd (stream_loop lib st evs)))
          = fst (snd (render lib (uuid_next st) (plan (first_name st) (seen_ids st) evs)))
        \<and> seen_ids (fst (snd (stream_loop lib st evs)))
            = seen_ids st \<union> msg_id ` set (stream_messages evs)
        \<and> first_name (fst (snd (stream_loop lib st evs))) = (first_name st \<and> evs = [])
        \<and> final_state (fst (snd (stream_loop lib st evs))) = last_retained (final_state st) evs)"
proof (induction evs arbitrary: st)
  case Nil
  then show ?case by (simp add: stream_messages_def last_retained_def update_nodes_def)
next
  case (Cons ev evs)
  define acts where
    "acts = announced (first_name st) ev @ map Translate (unseen (seen_ids st) (event_messages ev))"
  define S where "S = seen_ids st \<union> msg_id ` set (event_messages ev)"
  have plan: "plan (first_name st) (seen_ids st) (ev # evs) = acts @ plan False S evs"
    by (simp add: acts_def S_def)
  obtain xs st1 r1 where ev: "on_event lib st ev = (xs, st1, r1)" by (cases "on_event lib st ev")
  note step = on_event_render [of lib st ev, folded acts_def, unfolded ev]
  show ?case
  proof (cases r1)
    case (Some e)
    with step have re: "snd (snd (render lib (uuid_next st) acts)) = Some e" by simp
    from Some ev have "stream_loop lib st (ev # evs) = (xs, st1, Some e)" by simp
    with step re show ?thesis
      unfolding plan render_Some_append [OF re] by simp
  next
    case None
    with step have re: "snd (snd (render lib (uuid_next st) acts)) = None"
      and n1: "uuid_next st1 = fst (snd (render lib (uuid_next st) acts))"
      and s1: "seen_ids st1 = S" and f1: "first_name st1 = False"
      and l1: "final_state st1 = last_retained (final_state st) [ev]"
      and x: "xs = fst (render lib (uuid_next st) acts)"
      by (simp_all add: S_def)
    from None ev have sl: "stream_loop lib st (ev # evs) =
        (xs @ fst (stream_loop lib st1 evs), fst (snd (stream_loop lib st1 evs)),
         snd (snd (stream_loop lib st1 evs)))"
      by (simp add: split_beta)
    note ih = Cons [of st1, unfolded n1 s1 f1 l1]
    show ?thesis
      unfolding plan render_None_append [OF re] sl
      using ih x
      by (simp add: S_def stream_messages_Cons image_Un Un_assoc last_retained_Cons [of _ ev evs])
  qed
qed

lemma predict_stream_render:
  "fst (predict_stream lib self stream) = fst (render lib 0 (plan True {} stream))"
  "snd (snd (predict_stream lib self stream)) = snd (snd (render lib 0 (plan True {} stream)))"
  using stream_loop_render
    [of lib "\<lparr>first_name = True, seen_ids = {}, final_state = self, uuid_next = 0\<rparr>" stream]
  by (simp_all add: predict_stream_def)

lemma predict_stream_ok:
  assumes "predict_stream lib self stream = (out, st, None)"
  shows "out = fst (render lib 0 (plan True {} stream))"
    and "uuid_next st = fst (snd (render lib 0 (plan True {} stream)))"
    and "seen_ids st = msg_id ` set (stream_messages stream)"
    and "first_name st = (stream = [])"
    and "final_state st = last_retained self stream"
  using stream_loop_render
    [of lib "\<lparr>first_name = True, seen_ids = {}, final_state = self, uuid_next = 0\<rparr>" stream]
    assms
  by (simp_all add: predict_stream_def)

lemma stream_loop_append:
  "stream_loop lib st xs = (a, st1, None) \<Longrightarrow>
     stream_loop lib st (xs @ ys) =
       (a @ fst (stream_loop lib st1 ys), fst (snd (stream_loop lib st1 ys)),
        snd (snd (stream_loop lib st1 ys)))"
proof (induction xs arbitrary: st a st1)
  case Nil
  then show ?case by simp
next
  case (Cons ev xs)
  obtain b st2 r where ev: "on_event lib st ev = (b, st2, r)" by (cases "on_event lib st ev")
  with Cons.prems have r: "r = None" by (cases r) auto
  obtain c st3 r' where rest: "stream_loop lib st2 xs = (c, st3, r')"
    by (cases "stream_loop lib st2 xs")
  with Cons.prems ev r have eqs: "a = b @ c" "st1 = st3" "r' = None" by auto
  from Cons.IH [OF rest [unfolded eqs(3)]] ev r eqs show ?case
    by (simp add: split_beta)
qed


subsection \<open>Identifiers\<close>

lemma distinct_filter_le_one: "distinct (map f xs) \<Longrightarrow> length (filter (\<lambda>x. f x = k) xs) \<le> 1"
proof (induction xs)
  case Nil
  then show ?case by simp
next
  case (Cons x xs)
  show ?case
  proof (cases "f x = k")
    case True
    from Cons.prems have n: "f x \<notin> f ` set xs" by simp
    have "\<forall>y\<in>set xs. f y \<noteq> k"
    proof
      fix y
      assume "y \<in> set xs"
      then have "f y \<in> f ` set xs" by simp
      with n True show "f y \<noteq> k" by auto
    qed
    then have "filter (\<lambda>x. f x = k) xs = []" by (simp add: filter_empty_conv)
    with True show ?thesis by simp
  next
    case False
    with Cons show ?thesis by simp
  qed
qed

lemma unseen_subset: "set (unseen S ms) \<subseteq> set ms"
  by (induction ms arbitrary: S) auto

lemmas sample_defs = sample_state_def next_state_def bad_state_def human_msg_def
  ai_text_and_call_msg_def ai_bad_call_msg_def tool_msg_def ai_final_msg_def ai_call_msg_def
  sample_lib_def supervisor_event_def formatter_event_def

lemmas adapter_defs = predict_stream_def on_event_def announce_def langchain_to_responses_def
  id_or_uuid_def node_name_item_def output_item_done_def valid_item_def py_def Let_def split_beta

text \<open>
  A tool call without an identifier: the run yields the items built before the invalid
  one and ends with \<^verbatim>\<open>ValidationError\<close>; the messages behind it are not translated.
\<close>

lemma missing_call_id_ends_run:
  "fst (predict_stream sample_lib None [supervisor_event bad_state])
     = [\<lparr>ev_type = ''response.output_item.done'',
         ev_item = TextItem (py ''Let me check.'') ''m1''\<rparr>,
        \<lparr>ev_type = ''response.output_item.done'',
         ev_item = FunctionCallItem ''m1'' (Some ''c1'') ''logfood_genie'' ''{}''\<rparr>,
        \<lparr>ev_type = ''response.output_item.done'',
         ev_item = TextItem (py ''One more.'') ''m2''\<rparr>]
   \<and> snd (snd (predict_stream sample_lib None [supervisor_event bad_state])) = Some ValidationError"
  by (simp add: sample_defs adapter_defs)

text \<open>
  C1, amended. For every run of \<open>predict_stream\<close> and every source message identifier, at
  most one message carrying that identifier is translated into output items over the
  whole run: what the run yields, and the exception that ends it if one does, is what
  the list of actions \<open>plan True {} stream\<close> yields, and among the messages that list
  translates, all of them messages of the stream, at most one carries any given
  identifier. One translated assistant message may yield several items: a text item and
  one function-call item per tool call.
\<close>

theorem each_identifier_translated_once:
  "fst (predict_stream lib self stream) = fst (render lib 0 (plan True {} stream))
   \<and> snd (snd (predict_stream lib self stream)) = snd (snd (render lib 0 (plan True {} stream)))
   \<and> set (translated (plan True {} stream)) \<subseteq> set (stream_messages stream)
   \<and> (\<forall>i. length (filter (\<lambda>m. msg_id m = Some i) (translated (plan True {} stream))) \<le> 1)"
proof -
  have "\<forall>i. length (filter (\<lambda>m. msg_id m = Some i) (translated (plan True {} stream))) \<le> 1"
    unfolding translated_plan by (intro allI distinct_filter_le_one unseen_distinct)
  moreover have "set (translated (plan True {} stream)) \<subseteq> set (stream_messages stream)"
    by (simp add: translated_plan unseen_subset)
  ultimately show ?thesis
    using predict_stream_render [of lib self stream] by blast
qed

theorem each_identifier_translated_once_witness:
  "translated (plan True {} [supervisor_event sample_state, (''updates'', [])])
     = [human_msg, ai_text_and_call_msg, tool_msg, ai_final_msg]
   \<and> snd (snd (render sample_lib 0 (plan True {} [supervisor_event sample_state, (''updates'', [])])))
       = Some IndexError
   \<and> snd (snd (predict_stream sample_lib None [supervisor_event sample_state, (''updates'', [])]))
       = Some IndexError
   \<and> fst (predict_stream sample_lib None [supervisor_event sample_state, (''updates'', [])])
       = fst (render sample_lib 0 (plan True {} [supervisor_event sample_state, (''updates'', [])]))"
proof -
  have t: "translated (plan True {} [supervisor_event sample_state, (''updates'', [])])
             = [human_msg, ai_text_and_call_msg, tool_msg, ai_final_msg]"
    unfolding translated_plan
    by (simp add: stream_messages_def event_messages_def nodes_messages_def sample_defs)
  have r: "snd (snd (render sample_lib 0 (plan True {} [supervisor_event sample_state, (''updates'', [])])))
             = Some IndexError"
    by (simp add: announced_def event_messages_def nodes_messages_def sample_defs
        langchain_to_responses_def id_or_uuid_def valid_item_def py_def Let_def split_beta)
  from each_identifier_translated_once
    [of sample_lib None "[supervisor_event sample_state, (''updates'', [])]"] t r
  show ?thesis by simp
qed

text \<open>
  C1 as stated fails: one assistant message with text and a tool call yields two output
  items, both carrying the identifier of that message.
\<close>

theorem two_items_from_one_message:
  "fst (predict_stream sample_lib None
          [supervisor_event \<lparr>messages = [ai_text_and_call_msg], files = None\<rparr>])
     = [\<lparr>ev_type = ''response.output_item.done'',
         ev_item = TextItem (py ''Let me check.'') ''m1''\<rparr>,
        \<lparr>ev_type = ''response.output_item.done'',
         ev_item = FunctionCallItem ''m1'' (Some ''c1'') ''logfood_genie'' ''{}''\<rparr>]"
  by (simp add: sample_defs adapter_defs)

subsection \<open>Node names\<close>

text \<open>
  C4. Let a run of \<open>predict_stream\<close> have handled the events \<open>pre\<close> without an exception
  and let the next event be an update event whose first key is the node \<open>n\<close>. The block
  that announces node names yields the text item \<^verbatim>\<open><name>n</name>\<close>, with a fresh
  identifier, exactly when the event is not the first of the run (\<open>pre\<close> is not empty) and
  \<open>n\<close> is not \<^verbatim>\<open>formatter\<close>, and nothing otherwise; the events of the run so extended are
  the earlier ones, that announcement if any, and the items of the messages of the event.
  In particular no announcement is yielded for the formatter node.
\<close>

theorem node_name_announced_iff:
  assumes "predict_stream lib self pre = (out, st, None)"
  shows "announce lib st ((n, nd) # others) =
           Inr (if pre \<noteq> [] \<and> n \<noteq> ''formatter''
                then ([\<lparr>ev_type = ''response.output_item.done'',
                        ev_item = TextItem (py (''<name>'' @ n @ ''</name>''))
                                    (uuid4 lib (uuid_next st))\<rparr>],
                      st\<lparr>uuid_next := Suc (uuid_next st)\<rparr>)
                else ([], st))
       \<and> fst (predict_stream lib self (pre @ [(''updates'', (n, nd) # others)])) =
           out @ (if pre \<noteq> [] \<and> n \<noteq> ''formatter''
                  then [\<lparr>ev_type = ''response.output_item.done'',
                          ev_item = TextItem (py (''<name>'' @ n @ ''</name>''))
                                      (uuid4 lib (uuid_next st))\<rparr>]
                  else [])
               @ fst (emit_nodes lib
                       (if pre \<noteq> [] \<and> n \<noteq> ''formatter'' then st\<lparr>uuid_next := Suc (uuid_next st)\<rparr>
                        else st)
                       ((n, nd) # others))"
proof -
  define ann where
    "ann = (if pre \<noteq> [] \<and> n \<noteq> ''formatter''
            then [\<lparr>ev_type = ''response.output_item.done'',
                    ev_item = TextItem (py (''<name>'' @ n @ ''</name>'')) (uuid4 lib (uuid_next st))\<rparr>]
            else [])"
  define st1 where
    "st1 = (if pre \<noteq> [] \<and> n \<noteq> ''formatter'' then st\<lparr>uuid_next := Suc (uuid_next st)\<rparr> else st)"
  have first: "first_name st = (pre = [])"
    by (rule predict_stream_ok(4) [OF assms])
  have a: "announce lib st ((n, nd) # others) = Inr (ann, st1)"
    by (simp add: announce_def first ann_def st1_def node_name_item_def output_item_done_def)
  have "fst (stream_loop lib st [(''updates'', (n, nd) # others)])
          = ann @ fst (emit_nodes lib st1 ((n, nd) # others))"
    by (simp add: on_event_updates [OF a] split: prod.splits option.splits)
  with stream_loop_append [OF assms [unfolded predict_stream_def], of "[(''updates'', (n, nd) # others)]"]
  have "fst (predict_stream lib self (pre @ [(''updates'', (n, nd) # others)]))
          = out @ ann @ fst (emit_nodes lib st1 ((n, nd) # others))"
    by (simp add: predict_stream_def)
  with a show ?thesis unfolding ann_def st1_def by (simp only: if_distrib [of Inr] split: if_splits) auto
qed

theorem node_name_announced_iff_witness:
  "snd (snd (predict_stream sample_lib None [supervisor_event sample_state])) = None
   \<and> fst (predict_stream sample_lib None
            ([supervisor_event sample_state] @ [(''updates'', [(''tools'', next_state)])])) =
       fst (predict_stream sample_lib None [supervisor_event sample_state])
         @ [\<lparr>ev_type = ''response.output_item.done'',
             ev_item = TextItem (py ''<name>tools</name>'') ''uuid-''\<rparr>,
            \<lparr>ev_type = ''response.output_item.done'',
             ev_item = FunctionCallItem ''a1'' (Some ''c1'') ''logfood_genie'' ''{}''\<rparr>]"
proof -
  define X where "X = predict_stream sample_lib None [supervisor_event sample_state]"
  have e: "snd (snd X) = None"
    by (simp add: X_def sample_defs adapter_defs)
  then have h: "predict_stream sample_lib None [supervisor_event sample_state] = (fst X, fst (snd X), None)"
    by (simp add: X_def prod_eq_iff)
  have n: "uuid_next (fst (snd X)) = 0"
    by (simp add: X_def sample_defs adapter_defs)
  have s: "seen_ids (fst (snd X)) = {Some ''h1'', Some ''m1'', Some ''t1'', Some ''a2''}"
    by (auto simp: X_def sample_defs adapter_defs)
  have m: "fst (emit_nodes sample_lib ((fst (snd X))\<lparr>uuid_next := Suc 0\<rparr>) [(''tools'', next_state)])
             = [\<lparr>ev_type = ''response.output_item.done'',
                 ev_item = FunctionCallItem ''a1'' (Some ''c1'') ''logfood_genie'' ''{}''\<rparr>]"
    by (simp add: s sample_defs langchain_to_responses_def id_or_uuid_def valid_item_def
        output_item_done_def Let_def split_beta)
  have u: "uuid4 sample_lib 0 = ''uuid-''" by (simp add: sample_lib_def)
  have t: "''<name>'' @ ''tools'' @ ''</name>'' = ''<name>tools</name>''" by simp
  from node_name_announced_iff [OF h, of "''tools''" next_state "[]"] n m e u t
  show ?thesis by (simp add: X_def)
qed

subsection \<open>The formatter's event\<close>

lemma format_final_response_ids:
  "map msg_id (messages (format_final_response alnum nd)) = map msg_id (messages nd)"
proof (cases "last_ai_message (messages nd)")
  case None
  then show ?thesis by (simp add: format_final_response_def)
next
  case (Some i)
  from last_ai_message_Some [OF Some] have "i < length (messages nd)" by simp
  then have "(map msg_id (messages nd))[i := msg_id (messages nd ! i)] = map msg_id (messages nd)"
    by (simp add: list_update_same_conv)
  with Some show ?thesis by (simp add: format_final_response_def Let_def map_update)
qed

lemma yield_items_None:
  "snd (yield_items its) = None \<Longrightarrow> fst (yield_items its) = map output_item_done its"
  by (induction its) (auto split: prod.splits if_splits)

lemma render_text_item:
  "m \<in> set ms \<Longrightarrow> msg_type m = ''ai'' \<Longrightarrow> content m \<noteq> [] \<Longrightarrow>
   snd (snd (render lib n (map Translate ms))) = None \<Longrightarrow>
     \<exists>ident. output_item_done (TextItem (content m) ident) \<in> set (fst (render lib n (map Translate ms)))"
proof (induction ms arbitrary: n)
  case Nil
  then show ?case by simp
next
  case (Cons a ms)
  obtain its n1 where l: "langchain_to_responses lib n a = (its, n1)"
    by (cases "langchain_to_responses lib n a")
  obtain ys r where y: "yield_items its = (ys, r)" by (cases "yield_items its")
  from Cons.prems(4) l y have r: "r = None" by (cases r) auto
  with y have ys: "ys = map output_item_done its" using yield_items_None [of its] by simp
  from Cons.prems(4) l y r have rest: "snd (snd (render lib n1 (map Translate ms))) = None"
    by (simp add: split_beta)
  have whole: "fst (render lib n (map Translate (a # ms))) = ys @ fst (render lib n1 (map Translate ms))"
    using l y r by (simp add: split_beta)
  show ?case
  proof (cases "m = a")
    case True
    with Cons.prems(2,3) l have "\<exists>ident. TextItem (content m) ident \<in> set its"
      by (auto simp: langchain_to_responses_def split_beta Let_def)
    then show ?thesis unfolding whole ys by auto
  next
    case False
    with Cons.prems have "m \<in> set ms" by simp
    from Cons.IH [OF this Cons.prems(2,3) rest] show ?thesis unfolding whole by auto
  qed
qed

lemma two_events_plan:
  "plan True {} [supervisor_event nd, formatter_event alnum nd] = plan True {} [supervisor_event nd]"
proof -
  have "msg_id ` set (messages (format_final_response alnum nd)) \<subseteq> msg_id ` set (messages nd)"
    using format_final_response_ids [of alnum nd] by (metis image_set order_refl)
  then have "unseen (msg_id ` set (messages nd)) (messages (format_final_response alnum nd)) = []"
    by (rule unseen_all_seen)
  then show ?thesis
    by (simp add: supervisor_event_def formatter_event_def announced_def event_messages_def
        nodes_messages_def)
qed

lemma supervisor_plan:
  "plan True {} [supervisor_event nd] = map Translate (unseen {} (messages nd))"
  by (simp add: supervisor_event_def announced_def event_messages_def nodes_messages_def)

text \<open>
  C2. When the supervisor node's update event carries the state \<open>nd\<close> and the formatter
  node then returns \<open>format_final_response alnum nd\<close>, the run yields exactly the events,
  and ends with the exception if any, of the supervisor's event alone: every identifier
  of the formatter's messages is already in the seen set, so the formatter's event adds no
  item and the cleaned content is not emitted. What is yielded are the translations of the
  supervisor's messages as the supervisor produced them; in a run that no exception ends,
  the text item of the last assistant message, if its content is not empty and the
  identifiers of the state are distinct, is among the events and carries that content.
\<close>

theorem formatter_event_emits_nothing:
  "fst (predict_stream lib self [supervisor_event nd, formatter_event alnum nd])
     = fst (predict_stream lib self [supervisor_event nd])
   \<and> snd (snd (predict_stream lib self [supervisor_event nd, formatter_event alnum nd]))
     = snd (snd (predict_stream lib self [supervisor_event nd]))
   \<and> fst (predict_stream lib self [supervisor_event nd, formatter_event alnum nd])
     = fst (render lib 0 (map Translate (unseen {} (messages nd))))
   \<and> (last_ai_message (messages nd) = Some i \<and> content (messages nd ! i) \<noteq> []
        \<and> distinct (map msg_id (messages nd))
        \<and> snd (snd (predict_stream lib self [supervisor_event nd])) = None \<longrightarrow>
      (\<exists>ident. \<lparr>ev_type = ''response.output_item.done'',
                 ev_item = TextItem (content (messages nd ! i)) ident\<rparr>
                 \<in> set (fst (predict_stream lib self [supervisor_event nd, formatter_event alnum nd]))))"
proof -
  note two = predict_stream_render [of lib self "[supervisor_event nd, formatter_event alnum nd]",
      unfolded two_events_plan supervisor_plan]
  note one = predict_stream_render [of lib self "[supervisor_event nd]", unfolded supervisor_plan]
  have has_item: "\<exists>ident. \<lparr>ev_type = ''response.output_item.done'',
                 ev_item = TextItem (content (messages nd ! i)) ident\<rparr>
                 \<in> set (fst (predict_stream lib self [supervisor_event nd, formatter_event alnum nd]))"
    if a: "last_ai_message (messages nd) = Some i" and c: "content (messages nd ! i) \<noteq> []"
      and d: "distinct (map msg_id (messages nd))"
      and e: "snd (snd (predict_stream lib self [supervisor_event nd])) = None"
  proof -
    from last_ai_message_Some [OF a] have "messages nd ! i \<in> set (messages nd)"
      and "msg_type (messages nd ! i) = ''ai''" by simp_all
    moreover from e one(2) d
    have "snd (snd (render lib 0 (map Translate (messages nd)))) = None"
      by (simp add: distinct_unseen)
    ultimately have "\<exists>ident. output_item_done (TextItem (content (messages nd ! i)) ident)
        \<in> set (fst (render lib 0 (map Translate (messages nd))))"
      using c by (intro render_text_item)
    with d show ?thesis unfolding two(1) by (simp add: distinct_unseen output_item_done_def)
  qed
  from two one has_item show ?thesis by simp
qed

theorem formatter_event_emits_nothing_witness:
  "last_ai_message (messages sample_state) = Some 3
   \<and> content (messages sample_state ! 3) = py ''There are 42. Saved to out.csv''
   \<and> content (messages (format_final_response sample_alnum sample_state) ! 3) = py ''There are 42.''
   \<and> distinct (map msg_id (messages sample_state))
   \<and> snd (snd (predict_stream sample_lib None [supervisor_event sample_state])) = None
   \<and> fst (predict_stream sample_lib None
            [supervisor_event sample_state, formatter_event sample_alnum sample_state])
       = fst (predict_stream sample_lib None [supervisor_event sample_state])
   \<and> (\<exists>ident. \<lparr>ev_type = ''response.output_item.done'',
                ev_item = TextItem (py ''There are 42. Saved to out.csv'') ident\<rparr>
         \<in> set (fst (predict_stream sample_lib None
                        [supervisor_event sample_state, formatter_event sample_alnum sample_state])))"
proof -
  have a: "last_ai_message (messages sample_state) = Some 3"
    by (simp add: sample_defs)
  have b: "content (messages sample_state ! 3) = py ''There are 42. Saved to out.csv''"
    by (simp add: sample_defs)
  have r: "apply_format_template (remove_file_references sample_alnum (py ''There are 42. Saved to out.csv''))
             = py ''There are 42.''"
    by (simp add: sample_alnum_def filter_defs)
  have b': "content (messages sample_state ! 3) \<noteq> []" unfolding b by (simp add: py_def)
  have n: "3 < length (messages sample_state)" using last_ai_message_Some [OF a] by simp
  have c: "content (messages (format_final_response sample_alnum sample_state) ! 3) = py ''There are 42.''"
    using b' n by (simp add: format_final_response_def Let_def a b r)
  have d: "distinct (map msg_id (messages sample_state))"
    by (simp add: sample_defs)
  have e: "snd (snd (predict_stream sample_lib None [supervisor_event sample_state])) = None"
    by (simp add: sample_defs adapter_defs)
  note t = formatter_event_emits_nothing [of sample_lib None sample_state sample_alnum 3]
  from t have q: "fst (predict_stream sample_lib None
                        [supervisor_event sample_state, formatter_event sample_alnum sample_state])
       = fst (predict_stream sample_lib None [supervisor_event sample_state])"
    by blast
  from t a b' d e have "\<exists>ident. \<lparr>ev_type = ''response.output_item.done'',
                ev_item = TextItem (content (messages sample_state ! 3)) ident\<rparr>
         \<in> set (fst (predict_stream sample_lib None
                        [supervisor_event sample_state, formatter_event sample_alnum sample_state]))"
    by blast
  then have x: "\<exists>ident. \<lparr>ev_type = ''response.output_item.done'',
                ev_item = TextItem (py ''There are 42. Saved to out.csv'') ident\<rparr>
         \<in> set (fst (predict_stream sample_lib None
                        [supervisor_event sample_state, formatter_event sample_alnum sample_state]))"
    unfolding b .
  from a b c d e q x show ?thesis by blast
qed

subsection \<open>The custom outputs of \<open>predict\<close>\<close>





end
